theory Spec2Isabelle
  imports Main "HOL-Library.Sublist"
begin

section \<open>The todo-list engine of git-revise (gitrevise/todo.py)\<close>

text \<open>
  Byte strings and Python strings are both modelled as \<open>string\<close> (lists of 8-bit
  characters).  Object identities (\<open>Oid\<close>) are modelled by their hexadecimal digest.
  Exceptions are values of the type \<open>error\<close>; a function that may raise returns
  \<open>error + 'a\<close>, with \<open>Inl\<close> carrying the exception.
\<close>

type_synonym bytes = string
type_synonym Oid = string

text \<open>The line feed.\<close>

definition LF :: char where "LF = CHR 0x0A"

datatype error =
    ValueError string
  | AssertionError string
  | IndexError
  | MissingObject
  | MergeConflict
  | EditorError
  | CalledProcessError

subsection \<open>Action vocabulary\<close>

datatype CommitAction = PICK | FIXUP | SQUASH | REWORD | CUT | INDEX

datatype CommitlessAction = COMMENT | UPDATE_REF

text \<open>The union type \<open>Union[CommitAction, CommitlessAction]\<close>.\<close>

datatype Action = OfCommit CommitAction | OfCommitless CommitlessAction

fun CommitAction_value :: "CommitAction \<Rightarrow> string" where
  "CommitAction_value PICK = ''pick''"
| "CommitAction_value FIXUP = ''fixup''"
| "CommitAction_value SQUASH = ''squash''"
| "CommitAction_value REWORD = ''reword''"
| "CommitAction_value CUT = ''cut''"
| "CommitAction_value INDEX = ''index''"

fun CommitlessAction_value :: "CommitlessAction \<Rightarrow> string" where
  "CommitlessAction_value COMMENT = ''#''"
| "CommitlessAction_value UPDATE_REF = ''update-ref''"

fun Action_value :: "Action \<Rightarrow> string" where
  "Action_value (OfCommit a) = CommitAction_value a"
| "Action_value (OfCommitless a) = CommitlessAction_value a"

text \<open>Iterating over an \<open>Enum\<close> class yields its members in definition order.\<close>

definition CommitAction_members :: "CommitAction list" where
  "CommitAction_members = [PICK, FIXUP, SQUASH, REWORD, CUT, INDEX]"

definition CommitlessAction_members :: "CommitlessAction list" where
  "CommitlessAction_members = [COMMENT, UPDATE_REF]"

text \<open>\<open>s.startswith(p)\<close>\<close>

definition startswith :: "string \<Rightarrow> string \<Rightarrow> bool" where
  "startswith s p = (take (length p) s = p)"

text \<open>
  \<open>parse_action\<close>: the inner loop over the members of one enumeration, returning at the
  first member whose value starts with the input; the outer loop over the two
  enumerations; and the \<open>raise\<close> after both loops.
\<close>

fun scan_members :: "string \<Rightarrow> Action list \<Rightarrow> Action option" where
  "scan_members instr [] = None"
| "scan_members instr (enumvalue # rest) =
     (if startswith (Action_value enumvalue) instr then Some enumvalue
      else scan_members instr rest)"

fun scan_enumerations :: "string \<Rightarrow> Action list list \<Rightarrow> Action option" where
  "scan_enumerations instr [] = None"
| "scan_enumerations instr (enumeration # rest) =
     (case scan_members instr enumeration of
        Some enumvalue \<Rightarrow> Some enumvalue
      | None \<Rightarrow> scan_enumerations instr rest)"

definition unrecognized_action :: "string \<Rightarrow> error" where
  "unrecognized_action instr =
     ValueError (''Unrecognized action '' @ [CHR 0x27] @ instr @ [CHR 0x27]
       @ ''. Expected one of pick, fixup, squash, reword, cut, index, update-ref or #'')"

definition parse_action :: "string \<Rightarrow> error + Action" where
  "parse_action instr =
     (case scan_enumerations instr
             [map OfCommit CommitAction_members, map OfCommitless CommitlessAction_members] of
        Some enumvalue \<Rightarrow> Inr enumvalue
      | None \<Rightarrow> Inl (unrecognized_action instr))"

text \<open>
  The declared order across both families, as the specification words it: the
  commit-bearing actions in declared order, then the commit-less ones.
\<close>

definition declared_actions :: "Action list" where
  "declared_actions =
     [OfCommit PICK, OfCommit FIXUP, OfCommit SQUASH, OfCommit REWORD, OfCommit CUT,
      OfCommit INDEX, OfCommitless COMMENT, OfCommitless UPDATE_REF]"

subsection \<open>Commits, steps and the backing store\<close>

text \<open>
  A commit as this module reads it: its identity, the identity of its tree, the
  identities of its parents, its authorship and its message.  A tree is identified with
  its identity (\<open>commit.tree()\<close> is \<open>tree_oid\<close>), the sole notion of equality for trees.
  The message field is called \<open>commit_message\<close> because \<open>CommitStep\<close> has a field
  \<open>message\<close> of its own.
\<close>

record Commit =
  oid :: Oid
  tree_oid :: Oid
  parent_oids :: "Oid list"
  author :: bytes
  commit_message :: bytes

text \<open>\<open>CommitlessStep\<close>; its \<open>action\<close> field is called \<open>cl_action\<close> here.\<close>

record CommitlessStep =
  cl_action :: CommitlessAction
  operand :: bytes

record CommitStep =
  action :: CommitAction
  commit :: Commit
  message :: bytes
  extrasteps :: "CommitlessStep list"

text \<open>\<open>CommitStep.__init__\<close>\<close>

definition new_CommitStep :: "CommitAction \<Rightarrow> Commit \<Rightarrow> CommitStep" where
  "new_CommitStep a c = \<lparr>action = a, commit = c, message = commit_message c, extrasteps = []\<rparr>"

text \<open>\<open>CommitStep.significant_extrasteps\<close>\<close>

definition significant_extrasteps :: "CommitStep \<Rightarrow> CommitlessStep list" where
  "significant_extrasteps step = filter (\<lambda>x. cl_action x \<noteq> COMMENT) (extrasteps step)"

text \<open>
  The collaborators of this module that live in other modules (\<open>odb\<close>, \<open>utils\<close>,
  \<open>merge\<close>) are parameters of the model, collected in one record:
  \<^item> \<open>get_commit\<close>: \<open>Repository.get_commit\<close>, lookup by reference string or identity;
  \<^item> \<open>git\<close>: \<open>Repository.git\<close>, the standard output of a git command;
  \<^item> \<open>fromhex\<close>: \<open>Oid.fromhex\<close> after decoding;
  \<^item> \<open>short\<close>: \<open>Oid.short\<close>;
  \<^item> \<open>summary\<close>: \<open>Commit.summary\<close>;
  \<^item> \<open>message_with_edited_summary\<close>: the method of that name of \<open>Commit\<close>;
  \<^item> \<open>rebase\<close>: \<open>Commit.rebase(parent, tree_to_keep)\<close>;
  \<^item> \<open>commit_id\<close>: the identity the store gives a commit with the given tree,
    parents, message and author;
  \<^item> \<open>default_author\<close>: \<open>Repository.default_author\<close>;
  \<^item> \<open>edit_commit_message\<close>, \<open>cut_commit\<close>, \<open>run_editor\<close>,
    \<open>run_sequence_editor\<close>: the interactive collaborators of \<open>utils\<close>
    (the editors map the initial text to the response);
  \<^item> \<open>bool_config\<close>: \<open>Repository.bool_config(name, default)\<close>.
\<close>

record Repository =
  get_commit :: "string \<Rightarrow> error + Commit"
  git :: "string list \<Rightarrow> error + bytes"
  fromhex :: "string \<Rightarrow> error + Oid"
  short :: "Oid \<Rightarrow> string"
  summary :: "Commit \<Rightarrow> bytes"
  message_with_edited_summary :: "Commit \<Rightarrow> bytes \<Rightarrow> bytes"
  rebase :: "Commit \<Rightarrow> Commit option \<Rightarrow> Oid option \<Rightarrow> error + Commit"
  commit_id :: "Oid \<Rightarrow> Oid list \<Rightarrow> bytes \<Rightarrow> bytes \<Rightarrow> Oid"
  default_author :: bytes
  edit_commit_message :: "Commit \<Rightarrow> error + Commit"
  cut_commit :: "Commit \<Rightarrow> error + Commit"
  run_editor :: "bytes \<Rightarrow> error + bytes"
  run_sequence_editor :: "bytes \<Rightarrow> error + bytes"
  bool_config :: "string \<Rightarrow> bool \<Rightarrow> bool"

subsection \<open>Validation\<close>

text \<open>
  \<open>commit.parents()\<close> looks every parent identity up in the store, in order, and
  raises at the first lookup that fails.
\<close>

fun get_commits :: "Repository \<Rightarrow> Oid list \<Rightarrow> error + Commit list" where
  "get_commits repo [] = Inr []"
| "get_commits repo (p # ps) =
     (case get_commit repo p of
        Inl e \<Rightarrow> Inl e
      | Inr c \<Rightarrow> (case get_commits repo ps of Inl e \<Rightarrow> Inl e | Inr cs \<Rightarrow> Inr (c # cs)))"

definition parents :: "Repository \<Rightarrow> Commit \<Rightarrow> error + Commit list" where
  "parents repo c = get_commits repo (parent_oids c)"

text \<open>\<open>dropped_list[0].parents()[0].tree_oid\<close>\<close>

definition parent_tree_of :: "Repository \<Rightarrow> Commit \<Rightarrow> error + Oid" where
  "parent_tree_of repo c =
     (case parents repo c of
        Inl e \<Rightarrow> Inl e
      | Inr [] \<Rightarrow> Inl IndexError
      | Inr (p # _) \<Rightarrow> Inr (tree_oid p))"

text \<open>
  The inner \<open>for index, commit in enumerate(dropped_list)\<close> loop: the index of the
  first entry whose tree is \<open>parent_tree\<close>; \<open>None\<close> stands for the \<open>else\<close> branch of the
  loop (no \<open>break\<close>).
\<close>

fun enumerate_find :: "Oid \<Rightarrow> nat \<Rightarrow> Commit list \<Rightarrow> nat option" where
  "enumerate_find parent_tree index [] = None"
| "enumerate_find parent_tree index (c # rest) =
     (if tree_oid c = parent_tree then Some index
      else enumerate_find parent_tree (index + 1) rest)"

lemma enumerate_find_bound:
  "enumerate_find t i cs = Some k \<Longrightarrow> i \<le> k \<and> k < i + length cs"
proof (induction cs arbitrary: i)
  case Nil
  then show ?case by simp
next
  case (Cons c cs)
  show ?case
  proof (cases "tree_oid c = t")
    case True
    with Cons.prems show ?thesis by simp
  next
    case False
    with Cons.prems have "enumerate_find t (Suc i) cs = Some k" by simp
    from Cons.IH [OF this] show ?thesis by simp
  qed
qed

text \<open>
  The \<open>while\<close> loop over \<open>dropped_list\<close>.  Every iteration that continues removes at
  least the head, which is the termination argument.
\<close>

function dropped_walk :: "Repository \<Rightarrow> Commit list \<Rightarrow> error + Commit list" where
  "dropped_walk repo dropped_list =
     (if dropped_list \<noteq> [] \<and> length (parent_oids (hd dropped_list)) = 1 then
        (case parent_tree_of repo (hd dropped_list) of
           Inl e \<Rightarrow> Inl e
         | Inr parent_tree \<Rightarrow>
             (case enumerate_find parent_tree 0 dropped_list of
                Some index \<Rightarrow> dropped_walk repo (drop (index + 1) dropped_list)
              | None \<Rightarrow> Inr dropped_list))
      else Inr dropped_list)"
  by pat_completeness auto
termination
  by (relation "measure (\<lambda>(repo, dropped_list). length dropped_list)") auto

declare dropped_walk.simps [simp del]

definition misplaced_index :: error where
  "misplaced_index =
     ValueError ([CHR 0x27] @ ''index'' @ [CHR 0x27] @ '' actions follow all non-index todo items'')"

text \<open>The final loop of \<open>validate_todos\<close> over the edited plan, with its flag.\<close>

fun index_loop :: "bool \<Rightarrow> CommitStep list \<Rightarrow> error + unit" where
  "index_loop saw_index [] = Inr ()"
| "index_loop saw_index (step # rest) =
     (if action step = INDEX then index_loop True rest
      else if saw_index then Inl misplaced_index
      else index_loop saw_index rest)"

definition duplicate_original :: error where
  "duplicate_original = AssertionError ''Unexpected duplicate original commit!''"

definition duplicate_commit :: error where
  "duplicate_commit = ValueError ''Unexpected duplicate commit found in todos''"

definition foreign_commit :: error where
  "foreign_commit = ValueError ''Unexpected commits not referenced in original TODO list''"

definition cant_drop :: "Commit \<Rightarrow> error" where
  "cant_drop c = ValueError (''Can'' @ [CHR 0x27] @ ''t drop nonempty commit '' @ oid c)"

definition validate_todos :: "Repository \<Rightarrow> CommitStep list \<Rightarrow> CommitStep list \<Rightarrow> error + unit" where
  "validate_todos repo old new =
     (let old_set = set (map (\<lambda>s. oid (commit s)) old);
          new_set = set (map (\<lambda>s. oid (commit s)) new)
      in if card old_set \<noteq> length old then Inl duplicate_original
         else if card new_set \<noteq> length new then Inl duplicate_commit
         else if new_set - old_set \<noteq> {} then Inl foreign_commit
         else
           (case dropped_walk repo
                   (map commit (filter (\<lambda>s. oid (commit s) \<notin> new_set) old)) of
              Inl e \<Rightarrow> Inl e
            | Inr dropped_list \<Rightarrow>
                if dropped_list \<noteq> [] then Inl (cant_drop (hd dropped_list))
                else index_loop False new))"

subsection \<open>Vocabulary of the validation properties\<close>

text \<open>
  The edited plan names the same commit identity in two distinct steps; the edited plan
  has a step whose commit identity no step of the original plan has; the original
  commits, in original order, whose identity does not appear in the edited plan; a
  non-index step after an index step; the index steps form a trailing run.
\<close>

definition index_tail :: "CommitStep list \<Rightarrow> bool" where
  "index_tail new \<longleftrightarrow>
     (\<exists>k\<le>length new. (\<forall>i<k. action (new ! i) \<noteq> INDEX)
        \<and> (\<forall>i. k \<le> i \<and> i < length new \<longrightarrow> action (new ! i) = INDEX))"

definition non_index_after_index :: "CommitStep list \<Rightarrow> bool" where
  "non_index_after_index new \<longleftrightarrow>
     (\<exists>i j. i < j \<and> j < length new \<and> action (new ! i) = INDEX \<and> action (new ! j) \<noteq> INDEX)"

definition duplicate_in :: "CommitStep list \<Rightarrow> bool" where
  "duplicate_in new \<longleftrightarrow>
     (\<exists>i j. i < j \<and> j < length new \<and> oid (commit (new ! i)) = oid (commit (new ! j)))"

definition foreign_in :: "CommitStep list \<Rightarrow> CommitStep list \<Rightarrow> bool" where
  "foreign_in old new \<longleftrightarrow>
     (\<exists>n\<in>set new. \<forall>s\<in>set old. oid (commit n) \<noteq> oid (commit s))"

definition dropped :: "CommitStep list \<Rightarrow> CommitStep list \<Rightarrow> Commit list" where
  "dropped old new =
     map commit (filter (\<lambda>s. oid (commit s) \<notin> set (map (\<lambda>s. oid (commit s)) new)) old)"

text \<open>
  The walk over the dropped commits as the specification words it: while the head has
  exactly one parent, take the tree of that parent and look forward through the entries
  that remain, the head included, for the first one whose own tree is that tree; if there
  is one, discard everything up to and including it and repeat on what remains; if there
  is none, or the head has no parent or several, stop.
\<close>

function bubble_walk :: "Repository \<Rightarrow> Commit list \<Rightarrow> error + Commit list" where
  "bubble_walk repo dl =
     (if dl = [] then Inr dl
      else if length (parent_oids (hd dl)) \<noteq> 1 then Inr dl
      else (case parent_tree_of repo (hd dl) of
              Inl e \<Rightarrow> Inl e
            | Inr pt \<Rightarrow>
                (case dropWhile (\<lambda>c. tree_oid c \<noteq> pt) dl of
                   [] \<Rightarrow> Inr dl
                 | found # remains \<Rightarrow> bubble_walk repo remains)))"
  by pat_completeness auto
termination
proof (relation "measure (\<lambda>(repo, dl). length dl)")
  show "wf (measure (\<lambda>(repo, dl). length dl))" by simp
next
  fix repo :: Repository and dl :: "Commit list" and pt found remains
  assume "dropWhile (\<lambda>c. tree_oid c \<noteq> pt) dl = found # remains"
  then have "length (found # remains) \<le> length dl"
    using length_dropWhile_le [of "\<lambda>c. tree_oid c \<noteq> pt" dl] by simp
  then show "((repo, remains), (repo, dl)) \<in> measure (\<lambda>(repo, dl). length dl)" by simp
qed

declare bubble_walk.simps [simp del]

subsection \<open>Autosquash\<close>

text \<open>ASCII whitespace, as \<open>bytes.split\<close>, \<open>bytes.strip\<close> and \<open>bytes.isspace\<close> read it.\<close>

definition is_space :: "char \<Rightarrow> bool" where
  "is_space c \<longleftrightarrow> c \<in> set [CHR 0x20, CHR 0x09, CHR 0x0A, CHR 0x0B, CHR 0x0C, CHR 0x0D]"

text \<open>
  \<open>s.split(maxsplit=1)\<close>: the first word, and what follows the whitespace after it
  when anything does.
\<close>

definition split_maxsplit1 :: "bytes \<Rightarrow> bytes list" where
  "split_maxsplit1 s =
     (let s1 = dropWhile is_space s in
      if s1 = [] then []
      else
        (let word = takeWhile (\<lambda>c. \<not> is_space c) s1;
             remainder = dropWhile is_space (dropWhile (\<lambda>c. \<not> is_space c) s1)
         in if remainder = [] then [word] else [word, remainder]))"

text \<open>\<open>xs[i]\<close> for a non-negative index: \<open>IndexError\<close> out of range.\<close>

definition item :: "'a list \<Rightarrow> nat \<Rightarrow> error + 'a" where
  "item xs i = (if i < length xs then Inr (xs ! i) else Inl IndexError)"

lemma split_maxsplit1_unfold:
  "split_maxsplit1 s =
     (if dropWhile is_space s = [] then []
      else if dropWhile is_space (dropWhile (\<lambda>c. \<not> is_space c) (dropWhile is_space s)) = []
        then [takeWhile (\<lambda>c. \<not> is_space c) (dropWhile is_space s)]
        else [takeWhile (\<lambda>c. \<not> is_space c) (dropWhile is_space s),
              dropWhile is_space (dropWhile (\<lambda>c. \<not> is_space c) (dropWhile is_space s))])"
  unfolding split_maxsplit1_def Let_def by (rule refl)

lemma split_maxsplit1_shorter:
  assumes "item (split_maxsplit1 s) 1 = Inr r"
  shows "length r < length s"
proof -
  let ?s1 = "dropWhile is_space s"
  let ?s2 = "dropWhile (\<lambda>c. \<not> is_space c) ?s1"
  have ne: "?s1 \<noteq> []"
  proof
    assume "?s1 = []"
    then have "split_maxsplit1 s = []"
      by (subst split_maxsplit1_unfold) (simp only: if_True simp_thms)
    with assms show False by (simp add: item_def)
  qed
  have r: "r = dropWhile is_space ?s2"
  proof (cases "dropWhile is_space ?s2 = []")
    case True
    with ne have "split_maxsplit1 s = [takeWhile (\<lambda>c. \<not> is_space c) ?s1]"
      by (subst split_maxsplit1_unfold) (simp only: if_True if_False simp_thms)
    then have "length (split_maxsplit1 s) = 1" by simp
    with assms show ?thesis by (simp add: item_def)
  next
    case False
    with ne have "split_maxsplit1 s = [takeWhile (\<lambda>c. \<not> is_space c) ?s1, dropWhile is_space ?s2]"
      by (subst split_maxsplit1_unfold) (simp only: if_True if_False simp_thms)
    with assms show ?thesis by (simp add: item_def)
  qed
  from ne obtain x xs where x: "?s1 = x # xs" by (cases ?s1) blast+
  then have "\<not> is_space x" using hd_dropWhile [of is_space s] by simp
  then have "?s2 = dropWhile (\<lambda>c. \<not> is_space c) xs" by (simp only: x dropWhile.simps) simp
  then have "length ?s2 \<le> length xs" by (simp only: length_dropWhile_le)
  then have "length ?s2 < length ?s1" by (simp only: x) simp
  moreover have "length r \<le> length ?s2" by (simp only: r length_dropWhile_le)
  moreover have "length ?s1 \<le> length s" by (simp only: length_dropWhile_le)
  ultimately show ?thesis by linarith
qed

text \<open>
  The \<open>while\<close> loop of \<open>add_autosquash_step\<close> that strips the prefixes from the
  needle.  Every iteration shortens the needle.
\<close>

function strip_prefixes :: "bytes \<Rightarrow> error + bytes" where
  "strip_prefixes needle =
     (if startswith needle ''fixup! '' \<or> startswith needle ''squash! '' then
        (case item (split_maxsplit1 needle) 1 of
           Inl e \<Rightarrow> Inl e
         | Inr rest \<Rightarrow> strip_prefixes rest)
      else Inr needle)"
  by pat_completeness auto
termination
  by (relation "measure length") (auto simp: split_maxsplit1_shorter)

declare strip_prefixes.simps [simp del]

text \<open>
  The first loop over \<open>picks\<close>: append the new step to the first sequence whose lead
  step's summary starts with the needle (\<open>Some\<close> the updated \<open>picks\<close>), or fall through
  (\<open>None\<close>).
\<close>

fun fold_by_summary ::
  "Repository \<Rightarrow> bytes \<Rightarrow> CommitStep \<Rightarrow> CommitStep list list \<Rightarrow> error + CommitStep list list option"
where
  "fold_by_summary repo needle new_step [] = Inr None"
| "fold_by_summary repo needle new_step (seq # rest) =
     (case item seq 0 of
        Inl e \<Rightarrow> Inl e
      | Inr lead \<Rightarrow>
          if startswith (summary repo (commit lead)) needle
          then Inr (Some ((seq @ [new_step]) # rest))
          else (case fold_by_summary repo needle new_step rest of
                  Inl e \<Rightarrow> Inl e
                | Inr None \<Rightarrow> Inr None
                | Inr (Some rest') \<Rightarrow> Inr (Some (seq # rest'))))"

text \<open>
  The second loop, inside the \<open>try\<close>: the first sequence that holds a step for the
  target commit.  Commits are compared by identity.
\<close>

fun fold_by_target :: "Commit \<Rightarrow> CommitStep \<Rightarrow> CommitStep list list \<Rightarrow> CommitStep list list option"
where
  "fold_by_target target new_step [] = None"
| "fold_by_target target new_step (seq # rest) =
     (if list_ex (\<lambda>s. oid (commit s) = oid target) seq
      then Some ((seq @ [new_step]) # rest)
      else map_option (\<lambda>rest'. seq # rest') (fold_by_target target new_step rest))"

text \<open>The choice of the new step's action, with the assertion of the \<open>else\<close> branch.\<close>

definition reclassify :: "bytes \<Rightarrow> Commit \<Rightarrow> error + CommitStep" where
  "reclassify summ c =
     (if startswith summ ''fixup!'' then Inr (new_CommitStep FIXUP c)
      else if startswith summ ''squash!'' then Inr (new_CommitStep SQUASH c)
      else Inl (AssertionError []))"

text \<open>
  \<open>add_autosquash_step\<close> returns the updated \<open>picks\<close>.  The lookup of the needle
  includes its decoding; \<open>ValueError\<close> (a decoding error is one) and \<open>MissingObject\<close>
  are swallowed by the \<open>except\<close> clause, any other exception propagates.
\<close>

definition add_autosquash_step ::
  "Repository \<Rightarrow> CommitStep \<Rightarrow> CommitStep list list \<Rightarrow> error + CommitStep list list"
where
  "add_autosquash_step repo step picks =
     (case strip_prefixes (summary repo (commit step)) of
        Inl e \<Rightarrow> Inl e
      | Inr needle \<Rightarrow>
          if needle \<noteq> summary repo (commit step) then
            (case reclassify (summary repo (commit step)) (commit step) of
               Inl e \<Rightarrow> Inl e
             | Inr new_step \<Rightarrow>
                 (case fold_by_summary repo needle new_step picks of
                    Inl e \<Rightarrow> Inl e
                  | Inr (Some picks') \<Rightarrow> Inr picks'
                  | Inr None \<Rightarrow>
                      (case get_commit repo needle of
                         Inr target \<Rightarrow>
                           (case fold_by_target target new_step picks of
                              Some picks' \<Rightarrow> Inr picks'
                            | None \<Rightarrow> Inr (picks @ [[step]]))
                       | Inl (ValueError m) \<Rightarrow> Inr (picks @ [[step]])
                       | Inl MissingObject \<Rightarrow> Inr (picks @ [[step]])
                       | Inl e \<Rightarrow> Inl e)))
          else Inr (picks @ [[step]]))"

fun autosquash_loop ::
  "Repository \<Rightarrow> CommitStep list list \<Rightarrow> CommitStep list \<Rightarrow> error + CommitStep list list"
where
  "autosquash_loop repo picks [] = Inr picks"
| "autosquash_loop repo picks (step # rest) =
     (case add_autosquash_step repo step picks of
        Inl e \<Rightarrow> Inl e
      | Inr picks' \<Rightarrow> autosquash_loop repo picks' rest)"

definition autosquash_todos :: "Repository \<Rightarrow> CommitStep list \<Rightarrow> error + CommitStep list" where
  "autosquash_todos repo todos =
     (case autosquash_loop repo [] todos of
        Inl e \<Rightarrow> Inl e
      | Inr picks \<Rightarrow> Inr (concat picks))"

text \<open>
  A summary that starts with one of the two prefixes; a summary that is one of the two
  prefixes followed by nothing but whitespace.
\<close>

definition tagged :: "bytes \<Rightarrow> bool" where
  "tagged s \<longleftrightarrow> startswith s ''fixup! '' \<or> startswith s ''squash! ''"

definition bare_prefix :: "bytes \<Rightarrow> bool" where
  "bare_prefix s \<longleftrightarrow>
     (\<exists>ws. (s = ''fixup! '' @ ws \<or> s = ''squash! '' @ ws) \<and> (\<forall>c\<in>set ws. is_space c))"

subsection \<open>Plan builder\<close>

text \<open>
  \<open>bytes.splitlines\<close>: lines end at \<open>\n\<close>, \<open>\r\<close> or \<open>\r\n\<close>, and a final line break
  opens no further line.
\<close>

definition CR :: char where "CR = CHR 0x0D"

definition line_break :: "char \<Rightarrow> bool" where
  "line_break c \<longleftrightarrow> c = LF \<or> c = CR"

function splitlines :: "bytes \<Rightarrow> bytes list" where
  "splitlines s =
     (if s = [] then []
      else (case dropWhile (\<lambda>c. \<not> line_break c) s of
              [] \<Rightarrow> [s]
            | b # rest \<Rightarrow>
                takeWhile (\<lambda>c. \<not> line_break c) s
                  # splitlines (if b = CR \<and> take 1 rest = [LF] then drop 1 rest else rest)))"
  by pat_completeness auto
termination
proof (relation "measure length")
  show "wf (measure length)" by simp
next
  fix s :: bytes and b rest
  assume "dropWhile (\<lambda>c. \<not> line_break c) s = b # rest"
  then have "length (b # rest) \<le> length s"
    using length_dropWhile_le [of "\<lambda>c. \<not> line_break c" s] by simp
  then have "length rest < length s" and "length (drop 1 rest) < length s"
    by simp_all
  then show "(if b = CR \<and> take 1 rest = [LF] then drop 1 rest else rest, s) \<in> measure length"
    by (simp only: in_measure split: if_split) blast
qed
declare splitlines.simps [simp del]

text \<open>\<open>s.split(sep, maxsplit=1)\<close> for a separator of one byte.\<close>

definition split_once :: "char \<Rightarrow> bytes \<Rightarrow> bytes list" where
  "split_once sep s =
     (case dropWhile (\<lambda>c. c \<noteq> sep) s of
        [] \<Rightarrow> [s]
      | _ # rest \<Rightarrow> [takeWhile (\<lambda>c. c \<noteq> sep) s, rest])"

text \<open>
  \<open>s.split(sep)\<close>: the pieces between the occurrences of the separator, found from left
  to right without overlap; \<open>piece\<close> holds the piece being read, in reverse.
\<close>

function split_on :: "bytes \<Rightarrow> bytes \<Rightarrow> bytes \<Rightarrow> bytes list" where
  "split_on sep piece [] = [rev piece]"
| "split_on sep piece (c # cs) =
     (if sep \<noteq> [] \<and> take (length sep) (c # cs) = sep
      then rev piece # split_on sep [] (drop (length sep) (c # cs))
      else split_on sep (c # piece) cs)"
  by pat_completeness auto
termination
  by (relation "measure (\<lambda>(sep, piece, s). length s)") auto

definition split :: "bytes \<Rightarrow> bytes \<Rightarrow> bytes list" where
  "split s sep = split_on sep [] s"

text \<open>
  The loop over the lines of \<open>git show-ref\<close>, filling the \<open>defaultdict\<close>
  \<open>commit_refs\<close> (a function, \<open>[]\<close> where no ref was stored).  A line with no space
  fails to unpack.
\<close>

fun index_refs ::
  "Repository \<Rightarrow> (Oid \<Rightarrow> bytes list) \<Rightarrow> bytes list \<Rightarrow> error + (Oid \<Rightarrow> bytes list)"
where
  "index_refs repo commit_refs [] = Inr commit_refs"
| "index_refs repo commit_refs (line # rest) =
     (case split_once CHR '' '' line of
        [sha, refname] \<Rightarrow>
          (case fromhex repo sha of
             Inl e \<Rightarrow> Inl e
           | Inr i \<Rightarrow> index_refs repo (commit_refs(i := commit_refs i @ [refname])) rest)
      | _ \<Rightarrow> Inl (ValueError ''not enough values to unpack (expected 2, got 1)''))"

text \<open>
  The two nested loops over the output of \<open>git worktree list\<close>: the lines of one
  entry, and the entries.
\<close>

fun record_branches :: "bytes set \<Rightarrow> bytes list \<Rightarrow> error + bytes set" where
  "record_branches outchecked [] = Inr outchecked"
| "record_branches outchecked (line # rest) =
     (case item (split_once CHR '' '' line) 0 of
        Inl e \<Rightarrow> Inl e
      | Inr key \<Rightarrow>
          if key = ''branch'' then
            (case item (split_once CHR '' '' line) 1 of
               Inl e \<Rightarrow> Inl e
             | Inr val \<Rightarrow> record_branches (insert val outchecked) rest)
          else record_branches outchecked rest)"

fun worktree_entries :: "bytes set \<Rightarrow> bytes list \<Rightarrow> error + bytes set" where
  "worktree_entries outchecked [] = Inr outchecked"
| "worktree_entries outchecked (entry # rest) =
     (case record_branches outchecked (split entry [LF]) of
        Inl e \<Rightarrow> Inl e
      | Inr outchecked' \<Rightarrow> worktree_entries outchecked' rest)"

text \<open>The loop over the refs of one step's commit, appending one extra step each.\<close>

fun attach_refs :: "bytes set \<Rightarrow> CommitStep \<Rightarrow> bytes list \<Rightarrow> CommitStep" where
  "attach_refs outchecked step [] = step"
| "attach_refs outchecked step (ref # rest) =
     attach_refs outchecked
       (step\<lparr>extrasteps := extrasteps step
          @ [\<lparr>cl_action = (if startswith ref ''refs/heads/'' \<and> ref \<notin> outchecked
                            then UPDATE_REF else COMMENT),
              operand = ref\<rparr>]\<rparr>)
       rest"

definition build_todos :: "Repository \<Rightarrow> Commit list \<Rightarrow> Commit option \<Rightarrow> error + CommitStep list" where
  "build_todos repo commits index =
     (let steps = map (new_CommitStep PICK) commits
                    @ (case index of None \<Rightarrow> [] | Some i \<Rightarrow> [new_CommitStep INDEX i])
      in case git repo [''show-ref'', ''--heads'', ''--tags''] of
           Inl e \<Rightarrow> Inl e
         | Inr shown \<Rightarrow>
             (case index_refs repo (\<lambda>i. []) (splitlines shown) of
                Inl e \<Rightarrow> Inl e
              | Inr commit_refs \<Rightarrow>
                  (case git repo [''worktree'', ''list'', ''--porcelain''] of
                     Inl e \<Rightarrow> Inl e
                   | Inr listed \<Rightarrow>
                       (case worktree_entries {} (split listed [LF, LF]) of
                          Inl e \<Rightarrow> Inl e
                        | Inr outchecked \<Rightarrow>
                            Inr (map (\<lambda>step. attach_refs outchecked step
                                                (commit_refs (oid (commit step))))
                                   steps)))))"

subsection \<open>Vocabulary of the plan builder properties\<close>

text \<open>
  The refs that \<open>git show-ref\<close> lists for a commit identity, in the order listed; the
  branch a line \<open>branch <name>\<close> names; the branches checked out in one entry of
  \<open>git worktree list\<close>, in any entry, and in any entry but the first, which is the one
  of the main worktree.
\<close>

definition pointing :: "Repository \<Rightarrow> Oid \<Rightarrow> bytes \<Rightarrow> bytes list" where
  "pointing repo i line =
     (case split_once CHR '' '' line of
        [sha, refname] \<Rightarrow> if fromhex repo sha = Inr i then [refname] else []
      | _ \<Rightarrow> [])"

definition refs_pointing_at :: "Repository \<Rightarrow> bytes \<Rightarrow> Oid \<Rightarrow> bytes list" where
  "refs_pointing_at repo shown i = concat (map (pointing repo i) (splitlines shown))"

definition branch_of :: "bytes \<Rightarrow> bytes list" where
  "branch_of line = (if take 7 line = ''branch '' then [drop 7 line] else [])"

definition branches_of :: "bytes \<Rightarrow> bytes set" where
  "branches_of entry = set (concat (map branch_of (split entry [LF])))"

definition worktree_branches :: "bytes \<Rightarrow> bytes set" where
  "worktree_branches listed = \<Union> (set (map branches_of (split listed [LF, LF])))"

definition other_worktree_branches :: "bytes \<Rightarrow> bytes set" where
  "other_worktree_branches listed = \<Union> (set (map branches_of (tl (split listed [LF, LF]))))"

subsection \<open>Presentation bridge\<close>

text \<open>\<open>bytes.strip\<close> and \<open>bytes.isspace\<close>.\<close>

definition strip :: "bytes \<Rightarrow> bytes" where
  "strip s = rev (dropWhile is_space (rev (dropWhile is_space s)))"

definition isspace :: "bytes \<Rightarrow> bool" where
  "isspace s \<longleftrightarrow> s \<noteq> [] \<and> list_all is_space s"

text \<open>\<open>Union[CommitStep, CommitlessStep]\<close>\<close>

datatype polystep = CStep CommitStep | LStep CommitlessStep

text \<open>\<open>CommitStep.__str__\<close> and \<open>CommitlessStep.to_bytes\<close>.\<close>

definition step_str :: "Repository \<Rightarrow> CommitStep \<Rightarrow> string" where
  "step_str repo step = CommitAction_value (action step) @ '' '' @ short repo (oid (commit step))"

definition to_bytes :: "CommitlessStep \<Rightarrow> bytes" where
  "to_bytes extrastep = CommitlessAction_value (cl_action extrastep) @ '' '' @ operand extrastep"

text \<open>
  The match of \<open>(?P<action>\S+)\s+(?P<operand>\S+)(\s+(?P<summary>.*))?$\<close> at the start
  of the entry: the action and the operand are the first two runs of bytes that are not
  whitespace; no third group when nothing follows the operand; otherwise the summary is
  what follows the whitespace after the operand, up to the end or to a final line feed,
  and there is no match when a line feed stands anywhere else in it.
\<close>

definition match_step :: "bytes \<Rightarrow> (bytes \<times> bytes \<times> bytes option) option" where
  "match_step instr =
     (let act = takeWhile (\<lambda>c. \<not> is_space c) instr;
          after_act = dropWhile (\<lambda>c. \<not> is_space c) instr;
          from_opnd = dropWhile is_space after_act;
          opnd = takeWhile (\<lambda>c. \<not> is_space c) from_opnd;
          after_opnd = dropWhile (\<lambda>c. \<not> is_space c) from_opnd
      in if act = [] \<or> after_act = [] \<or> opnd = [] then None
         else if after_opnd = [] then Some (act, opnd, None)
         else
           (let tail = dropWhile is_space after_opnd;
                summ = (if tail \<noteq> [] \<and> last tail = LF then butlast tail else tail)
            in if LF \<in> set summ then None else Some (act, opnd, Some summ)))"

definition bad_format :: "bytes \<Rightarrow> error" where
  "bad_format instr =
     ValueError (''todo entry '' @ [CHR 0x27] @ instr @ [CHR 0x27]
       @ '' must follow format <action> <operand> <optional summary>'')"

text \<open>\<open>parse_step\<close>; \<open>decode_lossy\<close> leaves the bytes of an action name or of a reference as they are.\<close>

definition parse_step :: "Repository \<Rightarrow> bytes \<Rightarrow> error + polystep" where
  "parse_step repo instr =
     (case match_step instr of
        None \<Rightarrow> Inl (bad_format instr)
      | Some (act, opnd, summ) \<Rightarrow>
          (case parse_action act of
             Inl e \<Rightarrow> Inl e
           | Inr (OfCommitless a) \<Rightarrow> Inr (LStep \<lparr>cl_action = a, operand = opnd\<rparr>)
           | Inr (OfCommit a) \<Rightarrow>
               (case get_commit repo opnd of
                  Inl e \<Rightarrow> Inl e
                | Inr c \<Rightarrow>
                    Inr (CStep ((new_CommitStep a c)
                      \<lparr>message := (case summ of
                                      None \<Rightarrow> commit_message c
                                    | Some s \<Rightarrow> message_with_edited_summary repo c s)\<rparr>)))))"

text \<open>
  A \<open>for\<close> loop that appends what it parses from each entry and raises at the first
  entry that fails.
\<close>

fun collect :: "('a \<Rightarrow> error + 'b) \<Rightarrow> 'a list \<Rightarrow> error + 'b list" where
  "collect f [] = Inr []"
| "collect f (x # xs) =
     (case f x of
        Inl e \<Rightarrow> Inl e
      | Inr y \<Rightarrow> (case collect f xs of Inl e \<Rightarrow> Inl e | Inr ys \<Rightarrow> Inr (y # ys)))"

text \<open>
  \<open>re.split(rb"^\+\+ ", response, flags=re.M)\<close>: the pieces between the occurrences of
  the marker at the start of a line; \<open>bol\<close> tells whether the position is the start of a
  line, \<open>piece\<close> holds the piece being read, in reverse.
\<close>

fun split_marker :: "bool \<Rightarrow> bytes \<Rightarrow> bytes \<Rightarrow> bytes list" where
  "split_marker bol piece [] = [rev piece]"
| "split_marker bol piece (c # cs) =
     (if bol \<and> take 3 (c # cs) = ''++ ''
      then rev piece # split_marker False [] (drop 2 cs)
      else split_marker (c = LF) (c # piece) cs)"

text \<open>The entries that \<open>edit_todos_msgedit\<close> serializes, in plan order.\<close>

definition serialize_msgedit :: "Repository \<Rightarrow> CommitStep list \<Rightarrow> bytes list" where
  "serialize_msgedit repo todos =
     concat (map (\<lambda>step. (step_str repo step @ [LF] @ commit_message (commit step))
                            # map to_bytes (extrasteps step)) todos)"

definition unpack_error :: error where
  "unpack_error = ValueError ''not enough values to unpack (expected 2, got 1)''"

text \<open>The body of the loop over the blocks of the response.\<close>

definition parse_block :: "Repository \<Rightarrow> bytes \<Rightarrow> error + polystep" where
  "parse_block repo full =
     (case split_once LF full of
        [cmd, msg] \<Rightarrow>
          (case parse_step repo (strip cmd) of
             Inl e \<Rightarrow> Inl e
           | Inr (CStep step) \<Rightarrow> Inr (CStep (step\<lparr>message := strip msg @ [LF]\<rparr>))
           | Inr (LStep extrastep) \<Rightarrow> Inr (LStep extrastep))
      | _ \<Rightarrow> Inl unpack_error)"

text \<open>
  \<open>edit_todos_msgedit\<close> and \<open>edit_todos_linewise\<close>.  The editor is given the text; the
  comment block it is also given is cut from its response by the editor itself.
\<close>

definition edit_todos_msgedit :: "Repository \<Rightarrow> CommitStep list \<Rightarrow> bool \<Rightarrow> error + polystep list" where
  "edit_todos_msgedit repo todos presentation_order_head_on_top =
     (let serialized_todos = serialize_msgedit repo todos;
          presented = (if presentation_order_head_on_top then rev serialized_todos
                       else serialized_todos);
          todos_text = concat (map (\<lambda>x. ''++ '' @ x @ [LF]) presented)
      in case run_editor repo todos_text of
           Inl e \<Rightarrow> Inl e
         | Inr response \<Rightarrow> collect (parse_block repo) (tl (split_marker True [] response)))"

definition serialize_linewise :: "Repository \<Rightarrow> CommitStep list \<Rightarrow> bytes list" where
  "serialize_linewise repo todos =
     concat (map (\<lambda>step. (step_str repo step @ '' '' @ summary repo (commit step))
                            # map to_bytes (extrasteps step)) todos)"

definition edit_todos_linewise :: "Repository \<Rightarrow> CommitStep list \<Rightarrow> bool \<Rightarrow> error + polystep list" where
  "edit_todos_linewise repo todos presentation_order_head_on_top =
     (let serialized_todos = serialize_linewise repo todos;
          presented = (if presentation_order_head_on_top then rev serialized_todos
                       else serialized_todos);
          todos_text = concat (map (\<lambda>x. x @ [LF]) presented)
      in case run_sequence_editor repo todos_text of
           Inl e \<Rightarrow> Inl e
         | Inr response \<Rightarrow>
             collect (\<lambda>line. parse_step repo (strip line))
               (filter (\<lambda>line. \<not> isspace line) (splitlines response)))"

definition no_base :: error where
  "no_base = ValueError ''Actions can not be applied to the base commit''"

text \<open>The loop of \<open>edit_todos\<close> that attaches each commit-less step to the step before it.\<close>

fun attach :: "CommitStep list \<Rightarrow> polystep list \<Rightarrow> error + CommitStep list" where
  "attach result [] = Inr result"
| "attach result (CStep step # rest) = attach (result @ [step]) rest"
| "attach result (LStep extrastep # rest) =
     (if length result = 0 then Inl no_base
      else attach (butlast result
                     @ [(last result)\<lparr>extrasteps := extrasteps (last result) @ [extrastep]\<rparr>])
             rest)"

text \<open>
  \<open>edit_todos\<close>: its first statement reads the presentation flag from the
  configuration; the rest of its body is \<open>edit_todos_presented\<close>, given the flag.
\<close>

definition edit_todos_presented ::
  "Repository \<Rightarrow> bool \<Rightarrow> CommitStep list \<Rightarrow> bool \<Rightarrow> error + CommitStep list"
where
  "edit_todos_presented repo presentation_order_head_on_top todos msgedit =
     (case (if msgedit then edit_todos_msgedit repo todos presentation_order_head_on_top
            else edit_todos_linewise repo todos presentation_order_head_on_top) of
        Inl e \<Rightarrow> Inl e
      | Inr polymorphic_steps \<Rightarrow>
          (case attach [] (if presentation_order_head_on_top then rev polymorphic_steps
                           else polymorphic_steps) of
             Inl e \<Rightarrow> Inl e
           | Inr result \<Rightarrow>
               (case validate_todos repo todos result of
                  Inl e \<Rightarrow> Inl e
                | Inr u \<Rightarrow> Inr result)))"

definition edit_todos :: "Repository \<Rightarrow> CommitStep list \<Rightarrow> bool \<Rightarrow> error + CommitStep list" where
  "edit_todos repo todos msgedit =
     edit_todos_presented repo
       (bool_config repo ''sequence.presentation-order-head-on-top'' False) todos msgedit"

subsection \<open>Vocabulary of the presentation properties\<close>

text \<open>
  An entry no line of which, after its first, begins with the marker \<open>++ \<close>; an entry
  with no line break in it; a plan all of whose serialized entries are so, in the mode
  chosen.
\<close>

fun no_marker :: "bool \<Rightarrow> bytes \<Rightarrow> bool" where
  "no_marker bol [] = True"
| "no_marker bol (c # cs) = (\<not> (bol \<and> take 3 (c # cs) = ''++ '') \<and> no_marker (c = LF) cs)"

definition marker_free :: "bytes \<Rightarrow> bool" where
  "marker_free x = no_marker False (x @ [LF])"

definition single_line :: "bytes \<Rightarrow> bool" where
  "single_line x = (\<not> list_ex line_break x)"

definition presentable :: "Repository \<Rightarrow> CommitStep list \<Rightarrow> bool \<Rightarrow> bool" where
  "presentable repo todos msgedit =
     (if msgedit then list_all marker_free (serialize_msgedit repo todos)
      else list_all single_line (serialize_linewise repo todos))"

subsection \<open>Execution\<close>

text \<open>
  Modelled from the spec: \<open>Commit.update\<close> (\<open>odb\<close> is not among the sources), ``a
  commit-construction primitive that derives a new commit from a base with selected fields
  overridden''.  The fields that may be overridden here are the tree, the message and the
  author; the new commit's identity is the one the store gives these contents.
\<close>

definition update :: "Repository \<Rightarrow> Commit \<Rightarrow> Oid option \<Rightarrow> bytes option \<Rightarrow> bytes option \<Rightarrow> Commit" where
  "update repo c tree msg auth =
     (let t = (case tree of None \<Rightarrow> tree_oid c | Some t' \<Rightarrow> t');
          m = (case msg of None \<Rightarrow> commit_message c | Some m' \<Rightarrow> m');
          a = (case auth of None \<Rightarrow> author c | Some a' \<Rightarrow> a')
      in \<lparr>oid = commit_id repo t (parent_oids c) m a, tree_oid = t,
          parent_oids = parent_oids c, author = a, commit_message = m\<rparr>)"

text \<open>
  The state of \<open>apply_todos\<close>: its variables \<open>current\<close>, \<open>applied_old_commits\<close> and
  \<open>applied_new_commits\<close>, and its effects: the branch pointers that \<open>update_head\<close>
  moves (\<open>refs\<close>), the progress lines it prints (\<open>stdout\<close>) and the calls it makes to
  \<open>Commit.rebase\<close>, each logged as the identity of the rebased commit, the identity of
  the new parent and the pinned tree (\<open>rebase_calls\<close>).
\<close>

record State =
  current :: "Commit option"
  applied_old_commits :: "Oid set"
  applied_new_commits :: "Oid set"
  refs :: "bytes \<Rightarrow> Oid option"
  stdout :: "string list"
  rebase_calls :: "(Oid \<times> Oid option \<times> Oid option) list"

text \<open>
  What one pass through the loop body ends in: an exception, the \<open>break\<close>, or the end of
  the body.  Each carries the state reached, since the effects made before a \<open>raise\<close>
  remain.
\<close>

datatype outcome = Raised error State | Broke State | Continued State

fun state_of :: "outcome \<Rightarrow> State" where
  "state_of (Raised e s) = s"
| "state_of (Broke s) = s"
| "state_of (Continued s) = s"

text \<open>
  The chain of \<open>if\<close>/\<open>elif\<close> on \<open>step.action\<close>: an exception, the \<open>break\<close> of an index
  step, or the new tip.  The final \<open>else\<close> of the source has no action left to reach it.
\<close>

datatype transition = Fail error | Stop | Tip Commit

definition first_fixup :: error where
  "first_fixup = ValueError ''Cannot apply fixup as first commit''"

definition first_squash :: error where
  "first_squash = ValueError ''Cannot apply squash as first commit''"

fun dispatch :: "Repository \<Rightarrow> CommitAction \<Rightarrow> Commit option \<Rightarrow> Commit \<Rightarrow> transition" where
  "dispatch repo PICK cur rebased = Tip rebased"
| "dispatch repo FIXUP None rebased = Fail first_fixup"
| "dispatch repo FIXUP (Some c) rebased = Tip (update repo c (Some (tree_oid rebased)) None None)"
| "dispatch repo REWORD cur rebased =
     (case edit_commit_message repo rebased of Inl e \<Rightarrow> Fail e | Inr c \<Rightarrow> Tip c)"
| "dispatch repo SQUASH None rebased = Fail first_squash"
| "dispatch repo SQUASH (Some c) rebased =
     (let fused = commit_message c @ [LF, LF] @ commit_message rebased in
      case edit_commit_message repo (update repo c (Some (tree_oid rebased)) (Some fused) None) of
        Inl e \<Rightarrow> Fail e
      | Inr c' \<Rightarrow> Tip c')"
| "dispatch repo CUT cur rebased =
     (case cut_commit repo rebased of Inl e \<Rightarrow> Fail e | Inr c \<Rightarrow> Tip c)"
| "dispatch repo INDEX cur rebased = Stop"

text \<open>
  The loop over \<open>step.significant_extrasteps()\<close>.  Modelled from the spec:
  \<open>update_head\<close> (\<open>utils\<close> is not among the sources) ``repoints its named branch to
  \<open>current\<close>''.
\<close>

fun apply_extrasteps :: "Commit \<Rightarrow> CommitlessStep list \<Rightarrow> State \<Rightarrow> error option \<times> State" where
  "apply_extrasteps cur [] s = (None, s)"
| "apply_extrasteps cur (extrastep # rest) s =
     (if cl_action extrastep = UPDATE_REF
      then apply_extrasteps cur rest (s\<lparr>refs := (refs s)(operand extrastep \<mapsto> oid cur)\<rparr>)
      else (Some (ValueError (''Unhandled action: '' @ CommitlessAction_value (cl_action extrastep))), s))"

text \<open>The progress line; \<open>{...:6}\<close> pads the action name to six columns.\<close>

definition ljust :: "nat \<Rightarrow> string \<Rightarrow> string" where
  "ljust n s = s @ replicate (n - length s) CHR '' ''"

definition progress_line :: "Repository \<Rightarrow> CommitStep \<Rightarrow> Commit \<Rightarrow> string" where
  "progress_line repo step cur =
     ljust 6 (CommitAction_value (action step)) @ '' '' @ short repo (oid cur) @ ''  ''
       @ summary repo cur"

text \<open>What follows the chain for a step that neither raised nor broke out of the loop.\<close>

definition after_action :: "Repository \<Rightarrow> bool \<Rightarrow> CommitStep \<Rightarrow> Commit \<Rightarrow> State \<Rightarrow> outcome" where
  "after_action repo reauthor step tip s =
     (let cur = (if reauthor then update repo tip None None (Some (default_author repo)) else tip);
          s1 = s\<lparr>current := Some cur\<rparr>
      in case apply_extrasteps cur (significant_extrasteps step) s1 of
           (Some e, s2) \<Rightarrow> Raised e s2
         | (None, s2) \<Rightarrow> Continued (s2\<lparr>stdout := stdout s2 @ [progress_line repo step cur]\<rparr>))"

text \<open>The two \<open>add\<close> calls, and \<open>deja_vu\<close> with \<open>tree_to_keep\<close> on the sets so updated.\<close>

definition touch :: "State \<Rightarrow> CommitStep \<times> CommitStep \<Rightarrow> State" where
  "touch s pair =
     s\<lparr>applied_old_commits := insert (oid (commit (fst pair))) (applied_old_commits s),
       applied_new_commits := insert (oid (commit (snd pair))) (applied_new_commits s)\<rparr>"

definition tree_to_keep :: "State \<Rightarrow> CommitStep \<Rightarrow> Oid option" where
  "tree_to_keep s known_state =
     (let deja_vu = (applied_new_commits s = applied_old_commits s)
      in if deja_vu then Some (tree_oid (commit known_state)) else None)"

text \<open>The loop body.\<close>

definition apply_step :: "Repository \<Rightarrow> bool \<Rightarrow> State \<Rightarrow> CommitStep \<times> CommitStep \<Rightarrow> outcome" where
  "apply_step repo reauthor s pair =
     (let known_state = fst pair; step = snd pair;
          s1 = touch s pair;
          keep = tree_to_keep s1 known_state;
          s2 = s1\<lparr>rebase_calls := rebase_calls s1
                  @ [(oid (commit step), map_option oid (current s1), keep)]\<rparr>
      in case rebase repo (commit step) (current s2) keep of
           Inl e \<Rightarrow> Raised e s2
         | Inr r \<Rightarrow>
             (case dispatch repo (action step) (current s2)
                     (update repo r None (Some (message step)) None) of
                Fail e \<Rightarrow> Raised e s2
              | Stop \<Rightarrow> Broke s2
              | Tip tip \<Rightarrow> after_action repo reauthor step tip s2))"

text \<open>The loop over \<open>zip(todos_original, todos_edited)\<close>.\<close>

fun apply_loop :: "Repository \<Rightarrow> bool \<Rightarrow> State \<Rightarrow> (CommitStep \<times> CommitStep) list \<Rightarrow> outcome" where
  "apply_loop repo reauthor s [] = Continued s"
| "apply_loop repo reauthor s (pair # rest) =
     (case apply_step repo reauthor s pair of
        Raised e s' \<Rightarrow> Raised e s'
      | Broke s' \<Rightarrow> Broke s'
      | Continued s' \<Rightarrow> apply_loop repo reauthor s' rest)"

definition initial_state :: "(bytes \<Rightarrow> Oid option) \<Rightarrow> Commit option \<Rightarrow> State" where
  "initial_state refs0 cur =
     \<lparr>current = cur, applied_old_commits = {}, applied_new_commits = {}, refs = refs0,
      stdout = [], rebase_calls = []\<rparr>"

definition no_commits :: error where
  "no_commits = ValueError ''No commits introduced on top of root commit''"

text \<open>
  \<open>apply_todos\<close> returns the new tip or the exception, together with the final state;
  \<open>refs0\<close> are the branch pointers when it is called.
\<close>

definition apply_todos ::
  "Repository \<Rightarrow> (bytes \<Rightarrow> Oid option) \<Rightarrow> Commit option \<Rightarrow> CommitStep list \<Rightarrow> CommitStep list
     \<Rightarrow> bool \<Rightarrow> (error + Commit) \<times> State"
where
  "apply_todos repo refs0 cur todos_original todos_edited reauthor =
     (case apply_loop repo reauthor (initial_state refs0 cur) (zip todos_original todos_edited) of
        Raised e s \<Rightarrow> (Inl e, s)
      | Broke s \<Rightarrow>
          (case current s of None \<Rightarrow> (Inl no_commits, s) | Some c \<Rightarrow> (Inr c, s))
      | Continued s \<Rightarrow>
          (case current s of None \<Rightarrow> (Inl no_commits, s) | Some c \<Rightarrow> (Inr c, s)))"

subsection \<open>Vocabulary of the execution properties\<close>

text \<open>
  The two touched sets are equal after step \<open>i\<close>; the identity of the rebased commit and
  the pinned tree of each step, computed from the plans alone; the same two components of
  the logged calls; the state in which a step makes its call to \<open>rebase\<close>.
\<close>

definition touched_equal :: "CommitStep list \<Rightarrow> CommitStep list \<Rightarrow> nat \<Rightarrow> bool" where
  "touched_equal old new i \<longleftrightarrow>
     set (map (\<lambda>s. oid (commit s)) (take (Suc i) new))
       = set (map (\<lambda>s. oid (commit s)) (take (Suc i) old))"

fun keep_trace :: "Oid set \<Rightarrow> Oid set \<Rightarrow> (CommitStep \<times> CommitStep) list \<Rightarrow> (Oid \<times> Oid option) list" where
  "keep_trace A B [] = []"
| "keep_trace A B (pair # rest) =
     (oid (commit (snd pair)),
      if insert (oid (commit (snd pair))) B = insert (oid (commit (fst pair))) A
      then Some (tree_oid (commit (fst pair))) else None)
     # keep_trace (insert (oid (commit (fst pair))) A) (insert (oid (commit (snd pair))) B) rest"

definition call_keeps :: "State \<Rightarrow> (Oid \<times> Oid option) list" where
  "call_keeps s = map (\<lambda>call. (fst call, snd (snd call))) (rebase_calls s)"

definition logged :: "State \<Rightarrow> CommitStep \<times> CommitStep \<Rightarrow> State" where
  "logged s pair =
     (touch s pair)\<lparr>rebase_calls := rebase_calls s
        @ [(oid (commit (snd pair)), map_option oid (current s),
            tree_to_keep (touch s pair) (fst pair))]\<rparr>"

subsection \<open>Concrete inputs\<close>

text \<open>
  A small linear history \<open>cR \<leftarrow> cA \<leftarrow> cB \<leftarrow> cC\<close> in which \<open>cC\<close> restores the tree of
  \<open>cR\<close>, an index commit \<open>cI\<close> on top of it, and a store that knows these commits.
\<close>

definition demo_commit :: "Oid \<Rightarrow> Oid \<Rightarrow> Oid list \<Rightarrow> bytes \<Rightarrow> Commit" where
  "demo_commit i t ps m =
     \<lparr>oid = i, tree_oid = t, parent_oids = ps, author = ''A U Thor'', commit_message = m\<rparr>"

definition cR :: Commit where "cR = demo_commit ''r0'' ''t0'' [] ''root''"
definition cA :: Commit where "cA = demo_commit ''a1'' ''t1'' [''r0''] ''commit one''"
definition cB :: Commit where "cB = demo_commit ''b2'' ''t2'' [''a1''] ''commit two''"
definition cC :: Commit where "cC = demo_commit ''c3'' ''t0'' [''b2''] ''commit three''"

definition cF :: Commit where "cF = demo_commit ''f5'' ''t5'' [''c3''] ''fixup! ''"
definition cG :: Commit where "cG = demo_commit ''f6'' ''t6'' [''c3''] ''fixup! commit two''"

definition demo_repo :: Repository where
  "demo_repo =
     \<lparr>get_commit = (\<lambda>ref. case find (\<lambda>c. oid c = ref) [cR, cA, cB, cC] of
                              Some c \<Rightarrow> Inr c | None \<Rightarrow> Inl MissingObject),
      git = (\<lambda>args. Inr []),
      fromhex = Inr,
      short = (\<lambda>i. i),
      summary = (\<lambda>c. takeWhile (\<lambda>ch. ch \<noteq> LF) (commit_message c)),
      message_with_edited_summary = (\<lambda>c s. s @ dropWhile (\<lambda>ch. ch \<noteq> LF) (commit_message c)),
      rebase = (\<lambda>c parent tree_to_keep.
                  Inr (c\<lparr>oid := oid c @ ''*'',
                         parent_oids := (case parent of None \<Rightarrow> [] | Some p \<Rightarrow> [oid p]),
                         tree_oid := (case tree_to_keep of
                                        Some t \<Rightarrow> t
                                      | None \<Rightarrow> tree_oid c @ ''*'')\<rparr>)),
      commit_id = (\<lambda>t ps m a. ''new-'' @ t),
      default_author = ''Default'',
      edit_commit_message = Inr,
      cut_commit = Inr,
      run_editor = Inr,
      run_sequence_editor = Inr,
      bool_config = (\<lambda>name d. d)\<rparr>"

definition cI :: Commit where "cI = demo_commit ''i9'' ''t9'' [''c3''] ''<git index>''"

definition pick_step :: "Commit \<Rightarrow> CommitStep" where
  "pick_step c = new_CommitStep PICK c"

definition index_step :: "Commit \<Rightarrow> CommitStep" where
  "index_step c = new_CommitStep INDEX c"

definition no_refs :: "bytes \<Rightarrow> Oid option" where
  "no_refs = (\<lambda>name. None)"

definition fixup_todo :: "Commit \<Rightarrow> CommitStep" where
  "fixup_todo c = new_CommitStep FIXUP c"

definition index_with_ref :: "Commit \<Rightarrow> CommitStep" where
  "index_with_ref c =
     (new_CommitStep INDEX c)\<lparr>extrasteps := [\<lparr>cl_action = UPDATE_REF, operand = ''refs/heads/topic''\<rparr>]\<rparr>"

text \<open>
  A repository whose branch \<open>master\<close> is checked out in the main worktree and whose
  branch \<open>other\<close> is checked out in a second one.
\<close>

definition demo_shown :: bytes where
  "demo_shown = ''b2 refs/heads/master'' @ [LF] @ ''a1 refs/heads/topic'' @ [LF]
     @ ''a1 refs/heads/other'' @ [LF] @ ''a1 refs/tags/v1''"

definition demo_listed :: bytes where
  "demo_listed = ''worktree /repo'' @ [LF] @ ''HEAD b2'' @ [LF] @ ''branch refs/heads/master''
     @ [LF, LF] @ ''worktree /elsewhere'' @ [LF] @ ''HEAD a1'' @ [LF]
     @ ''branch refs/heads/other'' @ [LF]"

definition demo_git :: "string list \<Rightarrow> error + bytes" where
  "demo_git args =
     (if args = [''show-ref'', ''--heads'', ''--tags''] then Inr demo_shown
      else if args = [''worktree'', ''list'', ''--porcelain''] then Inr demo_listed
      else Inl CalledProcessError)"

definition worktree_repo :: Repository where
  "worktree_repo = demo_repo\<lparr>git := demo_git\<rparr>"

definition demo_steps :: "CommitStep list" where
  "demo_steps =
     [(pick_step cA)\<lparr>extrasteps :=
         [\<lparr>cl_action = UPDATE_REF, operand = ''refs/heads/topic''\<rparr>,
          \<lparr>cl_action = COMMENT, operand = ''refs/heads/other''\<rparr>,
          \<lparr>cl_action = COMMENT, operand = ''refs/tags/v1''\<rparr>]\<rparr>,
      (pick_step cB)\<lparr>extrasteps :=
         [\<lparr>cl_action = COMMENT, operand = ''refs/heads/master''\<rparr>]\<rparr>]"

text \<open>
  A commit whose message has a line that begins with the marker of the message-editing
  mode, and a store that knows it, with the presentation flag as given.
\<close>

definition cM :: Commit where
  "cM = demo_commit ''m7'' ''t7'' [''r0''] (''one'' @ [LF, LF] @ ''++ # note'' @ [LF])"

definition marker_repo :: "bool \<Rightarrow> Repository" where
  "marker_repo flag =
     demo_repo\<lparr>get_commit := (\<lambda>ref. case find (\<lambda>c. oid c = ref) [cR, cM, cB] of
                                       Some c \<Rightarrow> Inr c | None \<Rightarrow> Inl MissingObject),
               bool_config := (\<lambda>name d. flag)\<rparr>"

definition demo_edited :: "CommitStep list" where
  "demo_edited = map (\<lambda>step. step\<lparr>message := commit_message (commit step) @ [LF]\<rparr>) demo_steps"

lemmas demo_simps = demo_commit_def cR_def cA_def cB_def cC_def cI_def cF_def cG_def demo_repo_def
  pick_step_def index_step_def new_CommitStep_def

section \<open>Properties\<close>

subsection \<open>Action parsing\<close>

lemma startswith_prefix: "startswith s p \<longleftrightarrow> prefix p s"
  by (auto simp: startswith_def prefix_def) (metis append_take_drop_id)

lemma scan_members_find:
  "scan_members instr as = find (\<lambda>a. prefix instr (Action_value a)) as"
  by (induction as) (simp_all add: startswith_prefix)

lemma find_app:
  "find P (xs @ ys) = (case find P xs of Some x \<Rightarrow> Some x | None \<Rightarrow> find P ys)"
  by (induction xs) simp_all

lemma scan_enumerations_find:
  "scan_enumerations instr es = find (\<lambda>a. prefix instr (Action_value a)) (concat es)"
proof (induction es)
  case Nil
  then show ?case by simp
next
  case (Cons e es)
  show ?case using Cons by (simp add: scan_members_find find_app split: option.splits)
qed

lemma find_first_index:
  "find P xs = Some a \<longleftrightarrow>
     (\<exists>i<length xs. xs ! i = a \<and> P a \<and> (\<forall>j<i. \<not> P (xs ! j)))"
  by (auto simp: find_Some_iff)

text \<open>
  C7.  \<open>parse_action\<close> is a function of its input (so it is deterministic), and it
  returns the first action of the declared order
  pick, fixup, squash, reword, cut, index, #, update-ref whose canonical name starts with
  the input: every earlier action's name does not.  It raises the
  ``unrecognized action'' error, whose message lists the valid names, exactly when no
  canonical name starts with the input.
\<close>

theorem parse_action_first_match:
  "map Action_value declared_actions =
     [''pick'', ''fixup'', ''squash'', ''reword'', ''cut'', ''index'', ''#'', ''update-ref'']
   \<and> (parse_action instr = Inr a \<longleftrightarrow>
        (\<exists>i<length declared_actions. declared_actions ! i = a
           \<and> prefix instr (Action_value a)
           \<and> (\<forall>j<i. \<not> prefix instr (Action_value (declared_actions ! j)))))
   \<and> (parse_action instr = Inl e \<longleftrightarrow>
        (e = unrecognized_action instr \<and> (\<forall>a. \<not> prefix instr (Action_value a))))"
proof -
  let ?P = "\<lambda>a. prefix instr (Action_value a)"
  have all: "set declared_actions = UNIV"
  proof -
    have "\<And>a. a \<in> set declared_actions"
    proof -
      fix a show "a \<in> set declared_actions"
      proof (cases a)
        case (OfCommit c) then show ?thesis by (cases c) (simp_all add: declared_actions_def)
      next
        case (OfCommitless c) then show ?thesis by (cases c) (simp_all add: declared_actions_def)
      qed
    qed
    then show ?thesis by blast
  qed
  have pa: "parse_action instr =
      (case find ?P declared_actions of Some a \<Rightarrow> Inr a | None \<Rightarrow> Inl (unrecognized_action instr))"
    by (simp add: parse_action_def scan_enumerations_find declared_actions_def
        CommitAction_members_def CommitlessAction_members_def)
  have names: "map Action_value declared_actions =
     [''pick'', ''fixup'', ''squash'', ''reword'', ''cut'', ''index'', ''#'', ''update-ref'']"
    by (simp add: declared_actions_def)
  have ok: "parse_action instr = Inr a \<longleftrightarrow> find ?P declared_actions = Some a"
    by (simp add: pa split: option.splits)
  have none: "find ?P declared_actions = None \<longleftrightarrow> (\<forall>a. \<not> ?P a)"
    using all by (auto simp: find_None_iff)
  have err: "parse_action instr = Inl e \<longleftrightarrow>
        (e = unrecognized_action instr \<and> (\<forall>a. \<not> ?P a))"
    using none by (auto simp: pa split: option.splits)
  show ?thesis
    using names ok err find_first_index [of ?P declared_actions a] by simp
qed

theorem parse_action_first_match_witness:
  "parse_action ''s'' = Inr (OfCommit SQUASH)
   \<and> parse_action ''up'' = Inr (OfCommitless UPDATE_REF)
   \<and> parse_action [] = Inr (OfCommit PICK)
   \<and> parse_action ''drop'' = Inl (unrecognized_action ''drop'')"
  using parse_action_first_match [of "''s''" "OfCommit SQUASH" undefined]
    parse_action_first_match [of "''drop''" undefined "unrecognized_action ''drop''"]
  by (simp add: parse_action_def CommitAction_members_def CommitlessAction_members_def
      startswith_def)

subsection \<open>Validation\<close>

lemma card_set_length: "card (set xs) \<noteq> length xs \<longleftrightarrow> \<not> distinct xs"
  using card_distinct distinct_card by blast

lemma not_distinct_index:
  "\<not> distinct xs \<longleftrightarrow> (\<exists>i j. i < j \<and> j < length xs \<and> xs ! i = xs ! j)"
proof
  assume "\<not> distinct xs"
  then obtain i j where ij: "i < length xs" "j < length xs" "i \<noteq> j" "xs ! i = xs ! j"
    by (auto simp: distinct_conv_nth)
  show "\<exists>i j. i < j \<and> j < length xs \<and> xs ! i = xs ! j"
  proof (cases "i < j")
    case True
    with ij show ?thesis by blast
  next
    case False
    with ij have "j < i" by simp
    with ij show ?thesis by metis
  qed
next
  assume "\<exists>i j. i < j \<and> j < length xs \<and> xs ! i = xs ! j"
  then obtain i j where ij: "i < j" "j < length xs" "xs ! i = xs ! j" by blast
  then have "i < length xs" "i \<noteq> j" by simp_all
  with ij show "\<not> distinct xs" unfolding distinct_conv_nth by blast
qed

lemma index_loop_True:
  "index_loop True xs = (if \<forall>s\<in>set xs. action s = INDEX then Inr () else Inl misplaced_index)"
  by (induction xs) auto

lemma non_index_after_index_Cons:
  "non_index_after_index (s # xs) \<longleftrightarrow>
     (action s = INDEX \<and> (\<exists>t\<in>set xs. action t \<noteq> INDEX)) \<or> non_index_after_index xs"
proof
  assume "non_index_after_index (s # xs)"
  then obtain i j where ij: "i < j" "j < Suc (length xs)" "action ((s # xs) ! i) = INDEX"
    "action ((s # xs) ! j) \<noteq> INDEX"
    by (auto simp: non_index_after_index_def)
  from ij(1) obtain j' where j': "j = Suc j'" by (cases j) auto
  show "(action s = INDEX \<and> (\<exists>t\<in>set xs. action t \<noteq> INDEX)) \<or> non_index_after_index xs"
  proof (cases i)
    case 0
    with ij j' have "action s = INDEX" "j' < length xs" "action (xs ! j') \<noteq> INDEX" by simp_all
    then show ?thesis using nth_mem by blast
  next
    case (Suc i')
    with ij j' have "i' < j'" "j' < length xs" "action (xs ! i') = INDEX" "action (xs ! j') \<noteq> INDEX"
      by simp_all
    then show ?thesis unfolding non_index_after_index_def by blast
  qed
next
  assume a: "(action s = INDEX \<and> (\<exists>t\<in>set xs. action t \<noteq> INDEX)) \<or> non_index_after_index xs"
  show "non_index_after_index (s # xs)"
  proof (cases "non_index_after_index xs")
    case True
    then obtain i j where ij: "i < j" "j < length xs" "action (xs ! i) = INDEX" "action (xs ! j) \<noteq> INDEX"
      by (auto simp: non_index_after_index_def)
    then have "Suc i < Suc j \<and> Suc j < length (s # xs) \<and> action ((s # xs) ! Suc i) = INDEX
       \<and> action ((s # xs) ! Suc j) \<noteq> INDEX" by simp
    then show ?thesis unfolding non_index_after_index_def by blast
  next
    case False
    with a obtain t where t: "action s = INDEX" "t \<in> set xs" "action t \<noteq> INDEX" by blast
    then obtain m where m: "m < length xs" "xs ! m = t" by (auto simp: in_set_conv_nth)
    with t have "0 < Suc m \<and> Suc m < length (s # xs) \<and> action ((s # xs) ! 0) = INDEX
       \<and> action ((s # xs) ! Suc m) \<noteq> INDEX" by simp
    then show ?thesis unfolding non_index_after_index_def by blast
  qed
qed

lemma non_index_after_index_has_non_index:
  "non_index_after_index xs \<Longrightarrow> \<exists>t\<in>set xs. action t \<noteq> INDEX"
  unfolding non_index_after_index_def using nth_mem by blast

lemma index_loop_result:
  "index_loop False new = (if non_index_after_index new then Inl misplaced_index else Inr ())"
proof (induction new)
  case Nil
  then show ?case by (simp add: non_index_after_index_def)
next
  case (Cons s xs)
  show ?case
  proof (cases "action s = INDEX")
    case True
    have "non_index_after_index (s # xs) \<longleftrightarrow> (\<exists>t\<in>set xs. action t \<noteq> INDEX)"
      using True non_index_after_index_has_non_index [of xs]
      by (auto simp: non_index_after_index_Cons)
    with True show ?thesis by (auto simp: index_loop_True)
  next
    case False
    then show ?thesis using Cons by (simp add: non_index_after_index_Cons)
  qed
qed

lemma index_tail_Nil: "index_tail []"
  by (simp add: index_tail_def)

lemma index_tail_ConsI1:
  "action s = INDEX \<Longrightarrow> \<forall>t\<in>set xs. action t = INDEX \<Longrightarrow> index_tail (s # xs)"
  unfolding index_tail_def
  by (rule exI [of _ 0]) (auto simp: nth_Cons split: nat.splits)

lemma index_tail_ConsI2:
  assumes "action s \<noteq> INDEX" "index_tail xs"
  shows "index_tail (s # xs)"
proof -
  from assms(2) obtain k where k: "k \<le> length xs" "\<forall>i<k. action (xs ! i) \<noteq> INDEX"
    "\<forall>i. k \<le> i \<and> i < length xs \<longrightarrow> action (xs ! i) = INDEX"
    by (auto simp: index_tail_def)
  have "Suc k \<le> length (s # xs)" using k by simp
  moreover have "\<forall>i<Suc k. action ((s # xs) ! i) \<noteq> INDEX"
    using k assms(1) by (auto simp: nth_Cons split: nat.splits)
  moreover have "\<forall>i. Suc k \<le> i \<and> i < length (s # xs) \<longrightarrow> action ((s # xs) ! i) = INDEX"
    using k by (auto simp: nth_Cons split: nat.splits)
  ultimately show ?thesis unfolding index_tail_def by blast
qed

lemma index_tail_iff: "index_tail new \<longleftrightarrow> \<not> non_index_after_index new"
proof
  assume "index_tail new"
  then obtain k where k: "k \<le> length new" "\<forall>i<k. action (new ! i) \<noteq> INDEX"
    "\<forall>i. k \<le> i \<and> i < length new \<longrightarrow> action (new ! i) = INDEX"
    by (auto simp: index_tail_def)
  show "\<not> non_index_after_index new"
  proof
    assume "non_index_after_index new"
    then obtain i j where ij: "i < j" "j < length new" "action (new ! i) = INDEX" "action (new ! j) \<noteq> INDEX"
      by (auto simp: non_index_after_index_def)
    from ij(3) k(2) have "k \<le> i" by (meson not_le)
    with ij(1,2) k(3) have "action (new ! j) = INDEX" by simp
    with ij(4) show False by simp
  qed
next
  show "\<not> non_index_after_index new \<Longrightarrow> index_tail new"
  proof (induction new)
    case Nil
    show ?case by (rule index_tail_Nil)
  next
    case (Cons s xs)
    show ?case
    proof (cases "action s = INDEX")
      case True
      with Cons.prems have "\<forall>t\<in>set xs. action t = INDEX"
        by (auto simp: non_index_after_index_Cons)
      with True show ?thesis by (rule index_tail_ConsI1)
    next
      case False
      from Cons.prems have "\<not> non_index_after_index xs" by (simp add: non_index_after_index_Cons)
      then have "index_tail xs" by (rule Cons.IH)
      with False show ?thesis by (rule index_tail_ConsI2)
    qed
  qed
qed

lemma duplicate_in_distinct:
  "duplicate_in new \<longleftrightarrow> \<not> distinct (map (\<lambda>s. oid (commit s)) new)"
proof
  assume "duplicate_in new"
  then obtain i j where ij: "i < j" "j < length new"
    "oid (commit (new ! i)) = oid (commit (new ! j))"
    by (auto simp: duplicate_in_def)
  then have "i < j \<and> j < length (map (\<lambda>s. oid (commit s)) new)
       \<and> map (\<lambda>s. oid (commit s)) new ! i = map (\<lambda>s. oid (commit s)) new ! j"
    by simp
  then show "\<not> distinct (map (\<lambda>s. oid (commit s)) new)"
    unfolding not_distinct_index by blast
next
  assume "\<not> distinct (map (\<lambda>s. oid (commit s)) new)"
  then obtain i j where ij: "i < j" "j < length (map (\<lambda>s. oid (commit s)) new)"
    "map (\<lambda>s. oid (commit s)) new ! i = map (\<lambda>s. oid (commit s)) new ! j"
    unfolding not_distinct_index by blast
  then have "i < j \<and> j < length new \<and> oid (commit (new ! i)) = oid (commit (new ! j))"
    by simp
  then show "duplicate_in new" unfolding duplicate_in_def by blast
qed

lemma card_oids_duplicate:
  "card ((\<lambda>s. oid (commit s)) ` set xs) \<noteq> length xs \<longleftrightarrow> duplicate_in xs"
  using card_set_length [of "map (\<lambda>s. oid (commit s)) xs"]
  by (simp add: duplicate_in_distinct)

lemma foreign_in_diff:
  "foreign_in old new \<longleftrightarrow>
     \<not> (\<lambda>s. oid (commit s)) ` set new \<subseteq> (\<lambda>s. oid (commit s)) ` set old"
  by (auto simp: foreign_in_def)

lemma validate_todos_stages:
  "validate_todos repo old new =
     (if duplicate_in old then Inl duplicate_original
      else if duplicate_in new then Inl duplicate_commit
      else if foreign_in old new then Inl foreign_commit
      else (case dropped_walk repo (dropped old new) of
              Inl e \<Rightarrow> Inl e
            | Inr dropped_list \<Rightarrow>
                if dropped_list \<noteq> [] then Inl (cant_drop (hd dropped_list))
                else if non_index_after_index new then Inl misplaced_index else Inr ()))"
  using card_oids_duplicate [of old] card_oids_duplicate [of new]
  by (simp add: validate_todos_def Let_def foreign_in_diff dropped_def index_loop_result
      split: sum.splits)

text \<open>
  C3.  Whatever the original plan, \<open>validate_todos\<close> does not accept an edited plan that
  names one commit identity in two distinct steps, or that has a step whose commit
  identity is absent from the original plan: it raises.  With an original plan free of
  duplicates (otherwise the assertion on the original plan fails first) the exception is
  the duplicate-commit \<open>ValueError\<close> in the first case and the
  not-referenced-in-original \<open>ValueError\<close> in the second.
\<close>

theorem validate_todos_rejects_duplicate_or_foreign:
  assumes "duplicate_in new \<or> foreign_in old new"
  shows "validate_todos repo old new \<noteq> Inr ()
     \<and> validate_todos repo old new =
          (if duplicate_in old then Inl duplicate_original
           else if duplicate_in new then Inl duplicate_commit
           else Inl foreign_commit)"
  using assms by (auto simp: validate_todos_stages)

theorem validate_todos_rejects_duplicate_or_foreign_witness:
  "duplicate_in [pick_step cA, pick_step cA]
   \<and> validate_todos demo_repo [pick_step cA, pick_step cB] [pick_step cA, pick_step cA]
       = Inl duplicate_commit
   \<and> foreign_in [pick_step cA, pick_step cB] [pick_step cC]
   \<and> validate_todos demo_repo [pick_step cA, pick_step cB] [pick_step cC] = Inl foreign_commit"
proof -
  have d: "duplicate_in [pick_step cA, pick_step cA]"
    unfolding duplicate_in_def by (rule exI [of _ 0], rule exI [of _ 1]) simp
  have nd: "\<not> duplicate_in [pick_step cA, pick_step cB]" "\<not> duplicate_in [pick_step cC]"
    by (simp_all add: duplicate_in_distinct demo_simps)
  have f: "foreign_in [pick_step cA, pick_step cB] [pick_step cC]"
    by (simp add: foreign_in_def demo_simps)
  show ?thesis
    using validate_todos_rejects_duplicate_or_foreign
        [of "[pick_step cA, pick_step cA]" "[pick_step cA, pick_step cB]" demo_repo]
      validate_todos_rejects_duplicate_or_foreign
        [of "[pick_step cC]" "[pick_step cA, pick_step cB]" demo_repo]
      d nd f by simp
qed

text \<open>
  C6.  An edited plan with a non-index step after an index step is never accepted:
  \<open>validate_todos\<close> raises.  Every plan it accepts has its index steps in a trailing
  run, possibly empty.  Where the earlier checks pass and nothing remains of the dropped
  commits, the exception is the misplaced-index \<open>ValueError\<close>, raised exactly for
  such a plan.
\<close>

theorem validate_todos_index_tail:
  "(non_index_after_index new \<longrightarrow> (\<exists>e. validate_todos repo old new = Inl e))
   \<and> (validate_todos repo old new = Inr () \<longrightarrow> index_tail new)
   \<and> (\<not> duplicate_in old \<and> \<not> duplicate_in new \<and> \<not> foreign_in old new
        \<and> dropped_walk repo (dropped old new) = Inr [] \<longrightarrow>
      validate_todos repo old new =
        (if non_index_after_index new then Inl misplaced_index else Inr ()))"
  by (auto simp: validate_todos_stages index_tail_iff split: sum.splits if_splits)

lemma non_index_after_index_Nil: "\<not> non_index_after_index []"
  by (simp add: non_index_after_index_def)

theorem validate_todos_index_tail_witness:
  "non_index_after_index [index_step cI, pick_step cC]
   \<and> validate_todos demo_repo [pick_step cC, index_step cI] [index_step cI, pick_step cC]
       = Inl misplaced_index
   \<and> validate_todos demo_repo [pick_step cC, index_step cI] [pick_step cC, index_step cI] = Inr ()
   \<and> index_tail [pick_step cC, index_step cI]"
proof -
  let ?old = "[pick_step cC, index_step cI]"
  let ?bad = "[index_step cI, pick_step cC]"
  have n: "non_index_after_index ?bad"
    unfolding non_index_after_index_def
    by (rule exI [of _ 0], rule exI [of _ 1]) (simp add: demo_simps)
  have nd: "\<not> duplicate_in ?old" "\<not> duplicate_in ?bad"
    by (simp_all add: duplicate_in_distinct demo_simps)
  have nf: "\<not> foreign_in ?old ?bad" "\<not> foreign_in ?old ?old"
    by (simp_all add: foreign_in_def demo_simps)
  have w: "dropped_walk demo_repo (dropped ?old ?bad) = Inr []"
    "dropped_walk demo_repo (dropped ?old ?old) = Inr []"
    by (simp_all add: dropped_def dropped_walk.simps demo_simps)
  have nn: "\<not> non_index_after_index ?old"
    by (simp add: non_index_after_index_Cons non_index_after_index_Nil demo_simps)
  have ok: "validate_todos demo_repo ?old ?old = Inr ()"
    by (simp add: validate_todos_stages nd nf w nn)
  show ?thesis
    using validate_todos_index_tail [of ?bad demo_repo ?old]
      validate_todos_index_tail [of ?old demo_repo ?old] n nd nf w ok
    by simp
qed

lemma enumerate_find_None:
  "dropWhile (\<lambda>c. tree_oid c \<noteq> t) cs = [] \<Longrightarrow> enumerate_find t i cs = None"
proof (induction cs arbitrary: i)
  case Nil
  show ?case by simp
next
  case (Cons c cs)
  from Cons.prems have ne: "tree_oid c \<noteq> t"
    by (cases "tree_oid c = t") simp_all
  with Cons.prems have "dropWhile (\<lambda>c. tree_oid c \<noteq> t) cs = []" by simp
  then have "enumerate_find t (i + 1) cs = None" by (rule Cons.IH)
  with ne show ?case by simp
qed

lemma enumerate_find_Some:
  "dropWhile (\<lambda>c. tree_oid c \<noteq> t) cs = y # ys \<Longrightarrow>
   enumerate_find t i cs = Some (i + length (takeWhile (\<lambda>c. tree_oid c \<noteq> t) cs))"
proof (induction cs arbitrary: i)
  case Nil
  then show ?case by simp
next
  case (Cons c cs)
  show ?case
  proof (cases "tree_oid c = t")
    case True
    then show ?thesis by simp
  next
    case False
    with Cons.prems have "dropWhile (\<lambda>c. tree_oid c \<noteq> t) cs = y # ys" by simp
    then have "enumerate_find t (i + 1) cs
        = Some (i + 1 + length (takeWhile (\<lambda>c. tree_oid c \<noteq> t) cs))"
      by (rule Cons.IH)
    with False show ?thesis by simp
  qed
qed

lemma drop_takeWhile_Suc:
  "dropWhile P xs = y # ys \<Longrightarrow> drop (length (takeWhile P xs) + 1) xs = ys"
  by (induction xs) (auto split: if_splits)

lemma dropped_walk_bubble_walk: "dropped_walk repo dl = bubble_walk repo dl"
proof (induction repo dl rule: bubble_walk.induct)
  case (1 repo dl)
  show ?case
  proof (cases "dl \<noteq> [] \<and> length (parent_oids (hd dl)) = 1")
    case False
    then show ?thesis
      by (subst dropped_walk.simps, subst bubble_walk.simps) auto
  next
    case True
    show ?thesis
    proof (cases "parent_tree_of repo (hd dl)")
      case (Inl e)
      with True show ?thesis
        by (subst dropped_walk.simps, subst bubble_walk.simps) auto
    next
      case (Inr pt)
      show ?thesis
      proof (cases "dropWhile (\<lambda>c. tree_oid c \<noteq> pt) dl")
        case Nil
        then have ef: "enumerate_find pt 0 dl = None" by (rule enumerate_find_None)
        have l: "dropped_walk repo dl = Inr dl"
          using True Inr ef by (subst dropped_walk.simps) simp
        have r: "bubble_walk repo dl = Inr dl"
          using True Inr Nil by (subst bubble_walk.simps) (simp del: dropWhile_eq_Nil_conv)
        show ?thesis using l r by simp
      next
        case (Cons found remains)
        have ih: "dropped_walk repo remains = bubble_walk repo remains"
          using "1.IH" [of pt found remains] True Inr Cons by simp
        have dr: "drop (length (takeWhile (\<lambda>c. tree_oid c \<noteq> pt) dl) + 1) dl = remains"
          using Cons by (rule drop_takeWhile_Suc)
        have ef: "enumerate_find pt 0 dl
            = Some (0 + length (takeWhile (\<lambda>c. tree_oid c \<noteq> pt) dl))"
          using Cons by (rule enumerate_find_Some)
        have l: "dropped_walk repo dl = dropped_walk repo remains"
          using True Inr ef dr by (subst dropped_walk.simps) simp
        have r: "bubble_walk repo dl = bubble_walk repo remains"
          using True Inr Cons by (subst bubble_walk.simps) simp
        show ?thesis using l r ih by simp
      qed
    qed
  qed
qed

lemma cant_drop_not_misplaced:
  "cant_drop c \<noteq> misplaced_index" "misplaced_index \<noteq> cant_drop c"
  by (simp_all add: cant_drop_def misplaced_index_def)

text \<open>
  Where the earlier checks pass, the loop of \<open>validate_todos\<close> over the dropped commits
  computes the walk as the specification words it; the ``can't drop nonempty commit''
  error, naming the head of what remains, is raised exactly when entries remain after the
  walk; a failed parent lookup is raised as it is.
\<close>

lemma validate_todos_walk:
  assumes "\<not> duplicate_in old" and "\<not> duplicate_in new" and "\<not> foreign_in old new"
  shows "dropped_walk repo (dropped old new) = bubble_walk repo (dropped old new)
     \<and> (\<forall>remaining. bubble_walk repo (dropped old new) = Inr remaining \<longrightarrow>
           (validate_todos repo old new = Inl (cant_drop (hd remaining)) \<longleftrightarrow> remaining \<noteq> []))
     \<and> (\<forall>e. bubble_walk repo (dropped old new) = Inl e \<longrightarrow> validate_todos repo old new = Inl e)"
proof -
  have 1: "dropped_walk repo (dropped old new) = bubble_walk repo (dropped old new)"
    by (rule dropped_walk_bubble_walk)
  have 2: "\<forall>remaining. bubble_walk repo (dropped old new) = Inr remaining \<longrightarrow>
           (validate_todos repo old new = Inl (cant_drop (hd remaining)) \<longleftrightarrow> remaining \<noteq> [])"
    using assms by (auto simp: validate_todos_stages 1 cant_drop_not_misplaced)
  have 3: "\<forall>e. bubble_walk repo (dropped old new) = Inl e \<longrightarrow> validate_todos repo old new = Inl e"
    using assms by (simp add: validate_todos_stages 1)
  show ?thesis using 1 2 3 by blast
qed

text \<open>
  C2.  The claim: the walk over the dropped commits lets exactly the contiguous bubbles
  whose net tree effect is a no-op be dropped.  The code at the original plan
  \<open>cA, cB, cC\<close> edited to \<open>cB\<close> alone, where the tree of \<open>cC\<close> is the tree of the
  parent of \<open>cA\<close>: \<open>validate_todos\<close> accepts the edited plan, although the dropped commits
  \<open>cA\<close> and \<open>cC\<close> are not a contiguous run of the original plan (the kept \<open>cB\<close> stands
  between them) and the drop is not a no-op: the original plan ends at the tree \<open>t0\<close>,
  and the accepted plan, executed, makes one call to \<open>rebase\<close>, of \<open>cB\<close> onto the base
  with no tree pinned, and ends at the tree of that merge.  The walk compares trees along
  the list of dropped commits only; that the commits of a run are adjacent in the
  original plan is not checked.
\<close>

theorem validate_todos_accepts_nonadjacent_drop:
  "validate_todos demo_repo [pick_step cA, pick_step cB, pick_step cC] [pick_step cB] = Inr ()
   \<and> dropped [pick_step cA, pick_step cB, pick_step cC] [pick_step cB] = [cA, cC]
   \<and> map commit [pick_step cA, pick_step cB, pick_step cC] = [cA, cB, cC]
   \<and> \<not> sublist [cA, cC] [cA, cB, cC]
   \<and> map_sum id tree_oid (fst (apply_todos demo_repo no_refs (Some cR)
        [pick_step cA, pick_step cB, pick_step cC]
        [pick_step cA, pick_step cB, pick_step cC] False)) = Inr ''t0''
   \<and> rebase_calls (snd (apply_todos demo_repo no_refs (Some cR)
        [pick_step cA, pick_step cB, pick_step cC] [pick_step cB] False))
        = [(''b2'', Some ''r0'', None)]
   \<and> map_sum id tree_oid (fst (apply_todos demo_repo no_refs (Some cR)
        [pick_step cA, pick_step cB, pick_step cC] [pick_step cB] False)) = Inr ''t2*''"
  by code_simp

subsection \<open>Autosquash\<close>

lemma is_space_simps:
  "is_space CHR '' ''" "\<not> is_space CHR ''!''" "\<not> is_space CHR ''f''" "\<not> is_space CHR ''s''"
  by (simp_all add: is_space_def)

lemma split_maxsplit1_one_word:
  assumes "\<not> is_space c" and "\<forall>x\<in>set w. \<not> is_space x" and "\<forall>x\<in>set ws. is_space x"
  shows "split_maxsplit1 (c # w @ CHR '' '' # ws) = [c # w]"
proof -
  have 1: "dropWhile (\<lambda>x. \<not> is_space x) (w @ CHR '' '' # ws) = CHR '' '' # ws"
    using assms(2) by (simp add: dropWhile_append3 is_space_simps)
  have 2: "takeWhile (\<lambda>x. \<not> is_space x) (w @ CHR '' '' # ws) = w"
    using assms(2) by (simp add: is_space_simps)
  have 3: "dropWhile is_space ws = []" using assms(3) by simp
  show ?thesis
    using assms(1) 1 2 3 by (simp add: split_maxsplit1_def Let_def is_space_simps)
qed

lemma bare_prefix_split:
  assumes "bare_prefix s"
  shows "tagged s \<and> item (split_maxsplit1 s) 1 = Inl IndexError"
proof -
  from assms obtain ws where ws: "s = ''fixup! '' @ ws \<or> s = ''squash! '' @ ws"
    "\<forall>c\<in>set ws. is_space c"
    by (auto simp: bare_prefix_def)
  from ws(1) show ?thesis
  proof
    assume s: "s = ''fixup! '' @ ws"
    have "split_maxsplit1 (CHR ''f'' # ''ixup!'' @ CHR '' '' # ws) = [CHR ''f'' # ''ixup!'']"
      using ws(2) by (intro split_maxsplit1_one_word) (simp_all add: is_space_def)
    then have "split_maxsplit1 s = [''fixup!'']" using s by simp
    moreover have "tagged s" using s by (simp add: tagged_def startswith_def)
    ultimately show ?thesis by (simp add: item_def)
  next
    assume s: "s = ''squash! '' @ ws"
    have "split_maxsplit1 (CHR ''s'' # ''quash!'' @ CHR '' '' # ws) = [CHR ''s'' # ''quash!'']"
      using ws(2) by (intro split_maxsplit1_one_word) (simp_all add: is_space_def)
    then have "split_maxsplit1 s = [''squash!'']" using s by simp
    moreover have "tagged s" using s by (simp add: tagged_def startswith_def)
    ultimately show ?thesis by (simp add: item_def)
  qed
qed

lemma strip_prefixes_plain: "\<not> tagged s \<Longrightarrow> strip_prefixes s = Inr s"
  by (subst strip_prefixes.simps) (simp add: tagged_def)

lemma strip_prefixes_bare: "bare_prefix s \<Longrightarrow> strip_prefixes s = Inl IndexError"
  using bare_prefix_split [of s]
  by (subst strip_prefixes.simps) (simp add: tagged_def)

lemma add_autosquash_step_bare:
  "bare_prefix (summary repo (commit step)) \<Longrightarrow> add_autosquash_step repo step picks = Inl IndexError"
  by (simp add: add_autosquash_step_def strip_prefixes_bare)

lemma add_autosquash_step_plain:
  "\<not> tagged (summary repo (commit step)) \<Longrightarrow>
   add_autosquash_step repo step picks = Inr (picks @ [[step]])"
  by (simp add: add_autosquash_step_def strip_prefixes_plain)

lemma autosquash_loop_plain_prefix:
  "\<forall>s\<in>set pre. \<not> tagged (summary repo (commit s)) \<Longrightarrow>
   autosquash_loop repo picks (pre @ rest) = autosquash_loop repo (picks @ map (\<lambda>s. [s]) pre) rest"
  by (induction pre arbitrary: picks) (simp_all add: add_autosquash_step_plain)

text \<open>
  C10.  \<open>autosquash_todos\<close> is not total.  On every plan that has a step whose
  commit's summary is \<open>fixup! \<close> or \<open>squash! \<close> followed by nothing but whitespace,
  after steps whose summaries carry no such prefix, the prefix-stripping loop indexes
  element 1 of a one-element split and \<open>IndexError\<close> propagates out of
  \<open>autosquash_todos\<close>; the summary \<open>fixup! \<close> is such an input.
\<close>

theorem autosquash_todos_raises_IndexError:
  assumes "bare_prefix (summary repo (commit step))"
    and "\<forall>s\<in>set pre. \<not> tagged (summary repo (commit s))"
  shows "autosquash_todos repo (pre @ step # post) = Inl IndexError"
  using assms
  by (simp add: autosquash_todos_def autosquash_loop_plain_prefix add_autosquash_step_bare)


theorem autosquash_todos_raises_IndexError_witness:
  "bare_prefix (summary demo_repo (commit (pick_step cF)))
   \<and> autosquash_todos demo_repo [pick_step cA, pick_step cF, pick_step cB] = Inl IndexError"
proof -
  have b: "bare_prefix (summary demo_repo (commit (pick_step cF)))"
    unfolding bare_prefix_def
    by (rule exI [of _ "[]"]) (simp add: demo_simps LF_def)
  have p: "\<forall>s\<in>set [pick_step cA]. \<not> tagged (summary demo_repo (commit s))"
    by (simp add: tagged_def startswith_def demo_simps LF_def)
  show ?thesis
    using autosquash_todos_raises_IndexError [of demo_repo "pick_step cF" "[pick_step cA]" "[pick_step cB]"] b p
    by simp
qed

lemma autosquash_todos_folds_fixup:
  "autosquash_todos demo_repo [pick_step cA, pick_step cB, pick_step cC, pick_step cG]
     = Inr [pick_step cA, pick_step cB, new_CommitStep FIXUP cG, pick_step cC]"
  by code_simp

subsection \<open>Execution\<close>

lemma apply_extrasteps_frame:
  "apply_extrasteps cur xs s = (e, s') \<Longrightarrow>
   current s' = current s \<and> applied_old_commits s' = applied_old_commits s
   \<and> applied_new_commits s' = applied_new_commits s \<and> stdout s' = stdout s
   \<and> rebase_calls s' = rebase_calls s"
proof (induction xs arbitrary: s)
  case Nil
  then show ?case by simp
next
  case (Cons x xs)
  show ?case
  proof (cases "cl_action x = UPDATE_REF")
    case True
    with Cons.prems have
      "apply_extrasteps cur xs (s\<lparr>refs := (refs s)(operand x \<mapsto> oid cur)\<rparr>) = (e, s')"
      by simp
    from Cons.IH [OF this] show ?thesis by simp
  next
    case False
    with Cons.prems show ?thesis by auto
  qed
qed

lemma apply_extrasteps_update_refs:
  "\<forall>x\<in>set xs. cl_action x = UPDATE_REF \<Longrightarrow> fst (apply_extrasteps cur xs s) = None"
  by (induction xs arbitrary: s) simp_all

lemma significant_extrasteps_update_ref:
  "\<forall>x\<in>set (significant_extrasteps step). cl_action x = UPDATE_REF"
proof
  fix x assume "x \<in> set (significant_extrasteps step)"
  then have "cl_action x \<noteq> COMMENT" by (simp add: significant_extrasteps_def)
  then show "cl_action x = UPDATE_REF" by (cases "cl_action x") simp_all
qed

lemma after_action_Continued:
  "\<exists>s'. after_action repo reauthor step tip s = Continued s'
     \<and> current s' = Some (if reauthor then update repo tip None None (Some (default_author repo)) else tip)
     \<and> applied_old_commits s' = applied_old_commits s
     \<and> applied_new_commits s' = applied_new_commits s
     \<and> rebase_calls s' = rebase_calls s"
proof -
  let ?cur = "if reauthor then update repo tip None None (Some (default_author repo)) else tip"
  let ?s1 = "s\<lparr>current := Some ?cur\<rparr>"
  obtain e s2 where r: "apply_extrasteps ?cur (significant_extrasteps step) ?s1 = (e, s2)"
    by (cases "apply_extrasteps ?cur (significant_extrasteps step) ?s1") blast
  have "fst (apply_extrasteps ?cur (significant_extrasteps step) ?s1) = None"
    using significant_extrasteps_update_ref by (rule apply_extrasteps_update_refs)
  with r have e: "e = None" by simp
  from apply_extrasteps_frame [OF r] have f: "current s2 = Some ?cur"
    "applied_old_commits s2 = applied_old_commits s" "applied_new_commits s2 = applied_new_commits s"
    "rebase_calls s2 = rebase_calls s"
    by simp_all
  have "after_action repo reauthor step tip s
      = Continued (s2\<lparr>stdout := stdout s2 @ [progress_line repo step ?cur]\<rparr>)"
    using r e by (simp add: after_action_def Let_def)
  then show ?thesis using f by simp
qed

lemma apply_step_cases:
  "apply_step repo reauthor s pair =
     (case rebase repo (commit (snd pair)) (current s) (tree_to_keep (touch s pair) (fst pair)) of
        Inl e \<Rightarrow> Raised e (logged s pair)
      | Inr r \<Rightarrow>
          (case dispatch repo (action (snd pair)) (current s)
                  (update repo r None (Some (message (snd pair))) None) of
             Fail e \<Rightarrow> Raised e (logged s pair)
           | Stop \<Rightarrow> Broke (logged s pair)
           | Tip tip \<Rightarrow> after_action repo reauthor (snd pair) tip (logged s pair)))"
  by (simp add: apply_step_def Let_def logged_def touch_def split: sum.splits transition.splits)

lemma apply_step_log:
  "applied_old_commits (state_of (apply_step repo reauthor s pair))
      = insert (oid (commit (fst pair))) (applied_old_commits s)
   \<and> applied_new_commits (state_of (apply_step repo reauthor s pair))
      = insert (oid (commit (snd pair))) (applied_new_commits s)
   \<and> rebase_calls (state_of (apply_step repo reauthor s pair))
      = rebase_calls s @ [(oid (commit (snd pair)), map_option oid (current s),
            tree_to_keep (touch s pair) (fst pair))]"
proof -
  have l: "applied_old_commits (logged s pair) = insert (oid (commit (fst pair))) (applied_old_commits s)"
    "applied_new_commits (logged s pair) = insert (oid (commit (snd pair))) (applied_new_commits s)"
    "rebase_calls (logged s pair) = rebase_calls s @ [(oid (commit (snd pair)), map_option oid (current s),
            tree_to_keep (touch s pair) (fst pair))]"
    by (simp_all add: logged_def touch_def)
  show ?thesis
  proof (cases "rebase repo (commit (snd pair)) (current s) (tree_to_keep (touch s pair) (fst pair))")
    case (Inl e)
    then show ?thesis using l by (simp add: apply_step_cases)
  next
    case (Inr r)
    show ?thesis
    proof (cases "dispatch repo (action (snd pair)) (current s)
                  (update repo r None (Some (message (snd pair))) None)")
      case (Fail e)
      with Inr show ?thesis using l by (simp add: apply_step_cases)
    next
      case Stop
      with Inr show ?thesis using l by (simp add: apply_step_cases)
    next
      case (Tip tip)
      obtain s' where "after_action repo reauthor (snd pair) tip (logged s pair) = Continued s'"
        "applied_old_commits s' = applied_old_commits (logged s pair)"
        "applied_new_commits s' = applied_new_commits (logged s pair)"
        "rebase_calls s' = rebase_calls (logged s pair)"
        using after_action_Continued [of repo reauthor "snd pair" tip "logged s pair"] by blast
      with Inr Tip show ?thesis using l by (simp add: apply_step_cases)
    qed
  qed
qed

lemma apply_loop_append:
  "apply_loop repo reauthor s (pre @ rest) =
     (case apply_loop repo reauthor s pre of
        Raised e s' \<Rightarrow> Raised e s'
      | Broke s' \<Rightarrow> Broke s'
      | Continued s1 \<Rightarrow> apply_loop repo reauthor s1 rest)"
  by (induction pre arbitrary: s) (simp_all split: outcome.splits)

lemma apply_step_keeps:
  "call_keeps (state_of (apply_step repo reauthor s pair))
     = call_keeps s @ take 1 (keep_trace (applied_old_commits s) (applied_new_commits s) (pair # rest))"
  using apply_step_log [of repo reauthor s pair]
  by (simp add: call_keeps_def tree_to_keep_def touch_def Let_def)

lemma apply_loop_trace:
  "\<exists>k\<le>length ps.
     call_keeps (state_of (apply_loop repo reauthor s ps))
       = call_keeps s @ take k (keep_trace (applied_old_commits s) (applied_new_commits s) ps)
     \<and> (\<forall>s'. apply_loop repo reauthor s ps = Continued s' \<longrightarrow> k = length ps)"
proof (induction ps arbitrary: s)
  case Nil
  then show ?case by simp
next
  case (Cons pair rest)
  let ?A = "applied_old_commits s" and ?B = "applied_new_commits s"
  let ?r = "apply_step repo reauthor s pair"
  have keeps: "call_keeps (state_of ?r) = call_keeps s @ take 1 (keep_trace ?A ?B (pair # rest))"
    by (rule apply_step_keeps)
  show ?case
  proof (cases ?r)
    case (Raised e s1)
    then have "call_keeps (state_of (apply_loop repo reauthor s (pair # rest)))
        = call_keeps s @ take 1 (keep_trace ?A ?B (pair # rest))"
      using keeps by simp
    moreover have "\<forall>s'. apply_loop repo reauthor s (pair # rest) \<noteq> Continued s'"
      using Raised by simp
    ultimately show ?thesis by (intro exI [of _ 1]) simp
  next
    case (Broke s1)
    then have "call_keeps (state_of (apply_loop repo reauthor s (pair # rest)))
        = call_keeps s @ take 1 (keep_trace ?A ?B (pair # rest))"
      using keeps by simp
    moreover have "\<forall>s'. apply_loop repo reauthor s (pair # rest) \<noteq> Continued s'"
      using Broke by simp
    ultimately show ?thesis by (intro exI [of _ 1]) simp
  next
    case (Continued s1)
    have sets: "applied_old_commits s1 = insert (oid (commit (fst pair))) ?A"
      "applied_new_commits s1 = insert (oid (commit (snd pair))) ?B"
      using apply_step_log [of repo reauthor s pair] Continued by simp_all
    from Cons.IH [of s1] obtain k where k: "k \<le> length rest"
      "call_keeps (state_of (apply_loop repo reauthor s1 rest))
         = call_keeps s1 @ take k (keep_trace (applied_old_commits s1) (applied_new_commits s1) rest)"
      "\<forall>s'. apply_loop repo reauthor s1 rest = Continued s' \<longrightarrow> k = length rest"
      by blast
    have s1: "call_keeps s1 = call_keeps s @ take 1 (keep_trace ?A ?B (pair # rest))"
      using keeps Continued by simp
    have "call_keeps (state_of (apply_loop repo reauthor s (pair # rest)))
        = call_keeps s @ take (Suc k) (keep_trace ?A ?B (pair # rest))"
      using Continued k(2) s1 sets by simp
    moreover have "\<forall>s'. apply_loop repo reauthor s (pair # rest) = Continued s' \<longrightarrow> Suc k = length (pair # rest)"
      using Continued k(3) by simp
    moreover have "Suc k \<le> length (pair # rest)" using k(1) by simp
    ultimately show ?thesis by blast
  qed
qed

lemma length_keep_trace: "length (keep_trace A B ps) = length ps"
  by (induction ps arbitrary: A B) simp_all

lemma keep_trace_nth:
  "i < length ps \<Longrightarrow>
   keep_trace A B ps ! i =
     (oid (commit (snd (ps ! i))),
      if B \<union> set (map (\<lambda>p. oid (commit (snd p))) (take (Suc i) ps))
           = A \<union> set (map (\<lambda>p. oid (commit (fst p))) (take (Suc i) ps))
      then Some (tree_oid (commit (fst (ps ! i)))) else None)"
proof (induction ps arbitrary: A B i)
  case Nil
  then show ?case by simp
next
  case (Cons pair rest)
  show ?case
  proof (cases i)
    case 0
    then show ?thesis by simp
  next
    case (Suc j)
    with Cons.prems have j: "j < length rest" by simp
    show ?thesis using Cons.IH [OF j] Suc by simp
  qed
qed

lemma take_zip_oids:
  assumes "i < length old" and "i < length new"
  shows "set (map (\<lambda>p. oid (commit (fst p))) (take (Suc i) (zip old new)))
           = set (map (\<lambda>s. oid (commit s)) (take (Suc i) old))"
    and "set (map (\<lambda>p. oid (commit (snd p))) (take (Suc i) (zip old new)))
           = set (map (\<lambda>s. oid (commit s)) (take (Suc i) new))"
proof -
  have z: "take (Suc i) (zip old new) = zip (take (Suc i) old) (take (Suc i) new)"
    by (simp add: take_zip)
  have l: "length (take (Suc i) old) = length (take (Suc i) new)"
    using assms by simp
  have f: "map fst (zip (take (Suc i) old) (take (Suc i) new)) = take (Suc i) old"
    by (rule map_fst_zip [OF l])
  have g: "map snd (zip (take (Suc i) old) (take (Suc i) new)) = take (Suc i) new"
    by (rule map_snd_zip [OF l])
  have "map (\<lambda>p. oid (commit (fst p))) (take (Suc i) (zip old new))
      = map (\<lambda>s. oid (commit s)) (map fst (zip (take (Suc i) old) (take (Suc i) new)))"
    by (simp add: z)
  then show "set (map (\<lambda>p. oid (commit (fst p))) (take (Suc i) (zip old new)))
           = set (map (\<lambda>s. oid (commit s)) (take (Suc i) old))"
    by (simp only: f)
  have "map (\<lambda>p. oid (commit (snd p))) (take (Suc i) (zip old new))
      = map (\<lambda>s. oid (commit s)) (map snd (zip (take (Suc i) old) (take (Suc i) new)))"
    by (simp add: z)
  then show "set (map (\<lambda>p. oid (commit (snd p))) (take (Suc i) (zip old new)))
           = set (map (\<lambda>s. oid (commit s)) (take (Suc i) new))"
    by (simp only: g)
qed

text \<open>
  C1 (as amended).  Every call that \<open>apply_todos\<close> makes to \<open>rebase\<close> belongs to a pair
  of steps of the two plans, and the tree-reuse optimisation is applied at a step, with
  the tree of the original step's commit, exactly when the two touched sets are equal
  after that step.  A run that goes through the whole loop makes one call per pair.
  Nothing is remembered from earlier steps: the optimisation is applied again as soon as
  the sets are equal again.
\<close>

theorem apply_todos_deja_vu:
  "(i < length (rebase_calls (snd (apply_todos repo refs0 cur old new reauthor))) \<longrightarrow>
      i < length old \<and> i < length new
      \<and> fst (rebase_calls (snd (apply_todos repo refs0 cur old new reauthor)) ! i)
          = oid (commit (new ! i))
      \<and> snd (snd (rebase_calls (snd (apply_todos repo refs0 cur old new reauthor)) ! i))
          = (if touched_equal old new i then Some (tree_oid (commit (old ! i))) else None))
   \<and> (apply_loop repo reauthor (initial_state refs0 cur) (zip old new) = Continued s \<longrightarrow>
        snd (apply_todos repo refs0 cur old new reauthor) = s
        \<and> length (rebase_calls s) = min (length old) (length new))"
proof -
  let ?s0 = "initial_state refs0 cur"
  let ?run = "apply_loop repo reauthor ?s0 (zip old new)"
  let ?fin = "snd (apply_todos repo refs0 cur old new reauthor)"
  have fin: "?fin = state_of ?run"
    by (cases ?run) (simp_all add: apply_todos_def split: option.splits)
  obtain k where k: "k \<le> length (zip old new)"
    "call_keeps (state_of ?run) = call_keeps ?s0 @ take k (keep_trace {} {} (zip old new))"
    "\<forall>s'. ?run = Continued s' \<longrightarrow> k = length (zip old new)"
    using apply_loop_trace [of "zip old new" repo reauthor ?s0]
    by (auto simp: initial_state_def)
  have ck: "call_keeps ?fin = take k (keep_trace {} {} (zip old new))"
    using k(2) fin by (simp add: call_keeps_def initial_state_def)
  have len: "length (rebase_calls ?fin) = k"
  proof -
    have "length (call_keeps ?fin) = length (rebase_calls ?fin)" by (simp add: call_keeps_def)
    then show ?thesis using ck k(1) by (simp add: length_keep_trace)
  qed
  have part1: "i < length old \<and> i < length new
      \<and> fst (rebase_calls ?fin ! i) = oid (commit (new ! i))
      \<and> snd (snd (rebase_calls ?fin ! i))
          = (if touched_equal old new i then Some (tree_oid (commit (old ! i))) else None)"
    if a: "i < length (rebase_calls ?fin)"
  proof -
    from a len have ik: "i < k" by simp
    with k(1) have iz: "i < length (zip old new)" by simp
    then have io: "i < length old" and inew: "i < length new" by simp_all
    have "call_keeps ?fin ! i = keep_trace {} {} (zip old new) ! i"
      using ck ik by simp
    moreover have "call_keeps ?fin ! i
        = (fst (rebase_calls ?fin ! i), snd (snd (rebase_calls ?fin ! i)))"
      using a by (simp add: call_keeps_def)
    ultimately have e: "(fst (rebase_calls ?fin ! i), snd (snd (rebase_calls ?fin ! i)))
        = keep_trace {} {} (zip old new) ! i" by simp
    have n: "keep_trace {} {} (zip old new) ! i
        = (oid (commit (new ! i)),
           if touched_equal old new i then Some (tree_oid (commit (old ! i))) else None)"
      using keep_trace_nth [OF iz, of "{}" "{}"] take_zip_oids [OF io inew] io inew
      by (simp add: touched_equal_def del: set_map)
    show ?thesis using e n io inew by simp
  qed
  have part2: "?fin = s \<and> length (rebase_calls s) = min (length old) (length new)"
    if c: "?run = Continued s"
  proof -
    from c fin have "?fin = s" by simp
    moreover from c k(3) have "k = length (zip old new)" by blast
    ultimately show ?thesis using len by simp
  qed
  show ?thesis using part1 part2 by blast
qed

lemma demo_reorder_calls:
  "rebase_calls (snd (apply_todos demo_repo no_refs (Some cR) [pick_step cA, pick_step cB]
      [pick_step cB, pick_step cA] False))
   = [(''b2'', Some ''r0'', None), (''a1'', Some ''new-t2*'', Some ''t2'')]"
  by code_simp

lemma pick_step_sel:
  "commit (pick_step c) = c" "action (pick_step c) = PICK"
  "message (pick_step c) = commit_message c" "extrasteps (pick_step c) = []"
  by (simp_all add: pick_step_def new_CommitStep_def)

lemma demo_reorder_keeps:
  "snd (snd (rebase_calls (snd (apply_todos demo_repo no_refs (Some cR)
        [pick_step cA, pick_step cB] [pick_step cB, pick_step cA] False)) ! 1)) = Some (tree_oid cB)"
  "snd (snd (rebase_calls (snd (apply_todos demo_repo no_refs (Some cR)
        [pick_step cA, pick_step cB] [pick_step cB, pick_step cA] False)) ! 0)) = None"
proof -
  have t: "tree_oid cB = ''t2''" by (simp add: cB_def demo_commit_def)
  show "snd (snd (rebase_calls (snd (apply_todos demo_repo no_refs (Some cR)
        [pick_step cA, pick_step cB] [pick_step cB, pick_step cA] False)) ! 1)) = Some (tree_oid cB)"
    by (simp only: demo_reorder_calls t) simp
  show "snd (snd (rebase_calls (snd (apply_todos demo_repo no_refs (Some cR)
        [pick_step cA, pick_step cB] [pick_step cB, pick_step cA] False)) ! 0)) = None"
    by (simp only: demo_reorder_calls) simp
qed

lemma demo_reorder_touched:
  "touched_equal [pick_step cA, pick_step cB] [pick_step cB, pick_step cA] 1"
  "\<not> touched_equal [pick_step cA, pick_step cB] [pick_step cB, pick_step cA] 0"
  by (auto simp: touched_equal_def demo_simps)

theorem apply_todos_deja_vu_witness:
  "touched_equal [pick_step cA, pick_step cB] [pick_step cB, pick_step cA] 1
   \<and> snd (snd (rebase_calls (snd (apply_todos demo_repo no_refs (Some cR)
        [pick_step cA, pick_step cB] [pick_step cB, pick_step cA] False)) ! 1)) = Some (tree_oid cB)
   \<and> \<not> touched_equal [pick_step cA, pick_step cB] [pick_step cB, pick_step cA] 0
   \<and> snd (snd (rebase_calls (snd (apply_todos demo_repo no_refs (Some cR)
        [pick_step cA, pick_step cB] [pick_step cB, pick_step cA] False)) ! 0)) = None"
  using apply_todos_deja_vu [of 1 demo_repo no_refs "Some cR" "[pick_step cA, pick_step cB]"
        "[pick_step cB, pick_step cA]" False undefined]
    apply_todos_deja_vu [of 0 demo_repo no_refs "Some cR" "[pick_step cA, pick_step cB]"
        "[pick_step cB, pick_step cA]" False undefined]
    demo_reorder_touched
  by (simp add: demo_reorder_calls pick_step_sel)

text \<open>
  Swapping two picks: the touched sets differ after the first step and are equal after
  the second, where the tree of the original second commit is pinned.
\<close>

theorem deja_vu_after_divergence:
  "\<not> touched_equal [pick_step cA, pick_step cB] [pick_step cB, pick_step cA] 0
   \<and> snd (snd (rebase_calls (snd (apply_todos demo_repo no_refs (Some cR)
        [pick_step cA, pick_step cB] [pick_step cB, pick_step cA] False)) ! 1)) = Some (tree_oid cB)"
  using demo_reorder_touched(2) demo_reorder_keeps(1) by (rule conjI)

lemma update_tree_only:
  "tree_oid (update repo c (Some t) None None) = t"
  "commit_message (update repo c (Some t) None None) = commit_message c"
  "author (update repo c (Some t) None None) = author c"
  "parent_oids (update repo c (Some t) None None) = parent_oids c"
  by (simp_all add: update_def Let_def)

lemma update_message_tree:
  "tree_oid (update repo r None (Some m) None) = tree_oid r"
  by (simp add: update_def Let_def)

lemma logged_frame:
  "current (logged s pair) = current s" "refs (logged s pair) = refs s"
  "stdout (logged s pair) = stdout s"
  by (simp_all add: logged_def touch_def)

text \<open>
  C4.  A step whose edited action is fixup: with no current tip the executor raises, the
  exception being ``Cannot apply fixup as first commit'' unless the call to \<open>rebase\<close>
  that comes first has raised one itself, and the tip, the branch pointers and the output
  are as before; with a current tip, a rebase that returned and no reauthor flag, the
  step completes and the new tip is the current tip with its tree replaced by the rebased
  commit's tree, its message, authorship and parents unchanged.
\<close>

theorem fixup_step:
  assumes "action step = FIXUP"
  shows "(current s = None \<longrightarrow>
           (\<exists>e s'. apply_step repo reauthor s (known_state, step) = Raised e s'
              \<and> e = (case rebase repo (commit step) None
                              (tree_to_keep (touch s (known_state, step)) known_state) of
                         Inl x \<Rightarrow> x
                       | Inr r \<Rightarrow> first_fixup)
              \<and> current s' = None \<and> refs s' = refs s \<and> stdout s' = stdout s))
     \<and> (\<forall>c r. current s = Some c \<and> \<not> reauthor
             \<and> rebase repo (commit step) (Some c)
                   (tree_to_keep (touch s (known_state, step)) known_state) = Inr r \<longrightarrow>
           (\<exists>s'. apply_step repo reauthor s (known_state, step) = Continued s'
              \<and> current s' = Some (update repo c (Some (tree_oid r)) None None)
              \<and> tree_oid (the (current s')) = tree_oid r
              \<and> commit_message (the (current s')) = commit_message c
              \<and> author (the (current s')) = author c
              \<and> parent_oids (the (current s')) = parent_oids c))"
proof (intro conjI allI impI)
  assume n: "current s = None"
  let ?e = "case rebase repo (commit step) None
                   (tree_to_keep (touch s (known_state, step)) known_state) of
              Inl x \<Rightarrow> x
            | Inr r \<Rightarrow> first_fixup"
  have "apply_step repo reauthor s (known_state, step) = Raised ?e (logged s (known_state, step))"
    using assms n by (simp add: apply_step_cases split: sum.splits)
  then show "\<exists>e s'. apply_step repo reauthor s (known_state, step) = Raised e s'
              \<and> e = ?e \<and> current s' = None \<and> refs s' = refs s \<and> stdout s' = stdout s"
    using n by (simp add: logged_frame)
next
  fix c r
  assume c: "current s = Some c \<and> \<not> reauthor
             \<and> rebase repo (commit step) (Some c)
                   (tree_to_keep (touch s (known_state, step)) known_state) = Inr r"
  let ?tip = "update repo c (Some (tree_oid r)) None None"
  have step: "apply_step repo reauthor s (known_state, step)
      = after_action repo reauthor step ?tip (logged s (known_state, step))"
    using assms c by (simp add: apply_step_cases update_message_tree)
  obtain s' where s': "after_action repo reauthor step ?tip (logged s (known_state, step)) = Continued s'"
    "current s' = Some (if reauthor then update repo ?tip None None (Some (default_author repo)) else ?tip)"
    using after_action_Continued [of repo reauthor step ?tip "logged s (known_state, step)"] by blast
  from s'(2) c have cur: "current s' = Some ?tip" by simp
  show "\<exists>s'. apply_step repo reauthor s (known_state, step) = Continued s'
              \<and> current s' = Some (update repo c (Some (tree_oid r)) None None)
              \<and> tree_oid (the (current s')) = tree_oid r
              \<and> commit_message (the (current s')) = commit_message c
              \<and> author (the (current s')) = author c
              \<and> parent_oids (the (current s')) = parent_oids c"
    using step s'(1) cur by (simp add: update_tree_only)
qed

text \<open>
  C9.  When the loop reaches a step whose edited action is index, it makes the call to
  \<open>rebase\<close> and then stops, with the \<open>break\<close> or with the exception of that call: the
  tip, the branch pointers and the printed lines are those reached before the step, so
  neither the reauthor rewrite nor the step's extra steps (an update-ref among them) nor
  the progress line happens for it, and the later steps are not looked at.
\<close>

theorem index_step_stops:
  assumes "action (snd pair) = INDEX"
    and "apply_loop repo reauthor s pre = Continued s1"
  shows "apply_loop repo reauthor s (pre @ pair # rest) =
           (case rebase repo (commit (snd pair)) (current s1)
                   (tree_to_keep (touch s1 pair) (fst pair)) of
              Inl e \<Rightarrow> Raised e (logged s1 pair)
            | Inr r \<Rightarrow> Broke (logged s1 pair))
     \<and> current (state_of (apply_loop repo reauthor s (pre @ pair # rest))) = current s1
     \<and> refs (state_of (apply_loop repo reauthor s (pre @ pair # rest))) = refs s1
     \<and> stdout (state_of (apply_loop repo reauthor s (pre @ pair # rest))) = stdout s1"
proof -
  have a: "apply_loop repo reauthor s (pre @ pair # rest) = apply_loop repo reauthor s1 (pair # rest)"
    using assms(2) by (simp add: apply_loop_append)
  have b: "apply_step repo reauthor s1 pair =
           (case rebase repo (commit (snd pair)) (current s1)
                   (tree_to_keep (touch s1 pair) (fst pair)) of
              Inl e \<Rightarrow> Raised e (logged s1 pair)
            | Inr r \<Rightarrow> Broke (logged s1 pair))"
    using assms(1) by (simp add: apply_step_cases split: sum.splits)
  have c: "apply_loop repo reauthor s1 (pair # rest) = apply_step repo reauthor s1 pair"
    by (simp add: b split: sum.splits)
  show ?thesis
    using a b c by (simp add: logged_frame split: sum.splits)
qed

lemma demo_rebase:
  "rebase demo_repo c p k =
     Inr (c\<lparr>oid := oid c @ ''*'',
            parent_oids := (case p of None \<Rightarrow> [] | Some q \<Rightarrow> [oid q]),
            tree_oid := (case k of Some t \<Rightarrow> t | None \<Rightarrow> tree_oid c @ ''*'')\<rparr>)"
  by (simp add: demo_repo_def)

theorem fixup_step_witness:
  "(\<exists>s'. apply_step demo_repo False (initial_state no_refs None) (pick_step cA, fixup_todo cA)
            = Raised first_fixup s' \<and> current s' = None)
   \<and> (\<exists>s'. apply_step demo_repo False (initial_state no_refs (Some cR)) (pick_step cA, fixup_todo cA)
            = Continued s'
          \<and> tree_oid (the (current s')) = tree_oid cA
          \<and> commit_message (the (current s')) = commit_message cR
          \<and> author (the (current s')) = author cR)"
proof -
  let ?pair = "(pick_step cA, fixup_todo cA)"
  have a: "action (fixup_todo cA) = FIXUP" by (simp add: fixup_todo_def new_CommitStep_def)
  have k: "tree_to_keep (touch (initial_state no_refs (Some cR)) ?pair)
             (pick_step cA) = Some (tree_oid cA)"
    by (simp add: tree_to_keep_def touch_def initial_state_def pick_step_sel fixup_todo_def
        new_CommitStep_def)
  have n: "current (initial_state no_refs None) = None" by (simp add: initial_state_def)
  have c: "current (initial_state no_refs (Some cR)) = Some cR" by (simp add: initial_state_def)
  obtain r where r: "rebase demo_repo (commit (fixup_todo cA)) (Some cR)
      (tree_to_keep (touch (initial_state no_refs (Some cR)) ?pair) (pick_step cA)) = Inr r"
    and t: "tree_oid r = tree_oid cA"
    by (simp add: demo_rebase k)
  have e: "(case rebase demo_repo (commit (fixup_todo cA)) None
              (tree_to_keep (touch (initial_state no_refs None) ?pair) (pick_step cA)) of
             Inl x \<Rightarrow> x | Inr r \<Rightarrow> first_fixup) = first_fixup"
    by (simp only: demo_rebase sum.case)
  have h: "current (initial_state no_refs (Some cR)) = Some cR \<and> \<not> False
      \<and> rebase demo_repo (commit (fixup_todo cA)) (Some cR)
          (tree_to_keep (touch (initial_state no_refs (Some cR)) ?pair) (pick_step cA)) = Inr r"
    using c r by simp
  have 1: "\<exists>s'. apply_step demo_repo False (initial_state no_refs None) ?pair
              = Raised first_fixup s' \<and> current s' = None"
    using fixup_step [where step = "fixup_todo cA" and repo = demo_repo
          and s = "initial_state no_refs None" and known_state = "pick_step cA"
          and reauthor = False, OF a, THEN conjunct1, rule_format, OF n]
    unfolding e by blast
  have 2: "\<exists>s'. apply_step demo_repo False (initial_state no_refs (Some cR)) ?pair = Continued s'
          \<and> tree_oid (the (current s')) = tree_oid cA
          \<and> commit_message (the (current s')) = commit_message cR
          \<and> author (the (current s')) = author cR"
    using fixup_step [where step = "fixup_todo cA" and repo = demo_repo
          and s = "initial_state no_refs (Some cR)" and known_state = "pick_step cA"
          and reauthor = False, OF a, THEN conjunct2, rule_format, OF h]
    unfolding t by blast
  show ?thesis using 1 2 by (rule conjI)
qed

lemma apply_step_pick_continues:
  assumes "action (snd pair) = PICK"
    and "rebase repo (commit (snd pair)) (current s) (tree_to_keep (touch s pair) (fst pair)) = Inr r"
  shows "\<exists>s'. apply_step repo reauthor s pair = Continued s'"
proof -
  have "apply_step repo reauthor s pair
      = after_action repo reauthor (snd pair) (update repo r None (Some (message (snd pair))) None)
          (logged s pair)"
    using assms by (simp add: apply_step_cases)
  then show ?thesis
    using after_action_Continued [of repo reauthor "snd pair"
        "update repo r None (Some (message (snd pair))) None" "logged s pair"]
    by auto
qed

lemma demo_pick_continues:
  "\<exists>s1. apply_loop demo_repo False (initial_state no_refs (Some cR))
           [(pick_step cA, pick_step cA)] = Continued s1"
proof -
  have a: "action (snd (pick_step cA, pick_step cA)) = PICK" by (simp add: pick_step_sel)
  obtain s' where "apply_step demo_repo False (initial_state no_refs (Some cR))
      (pick_step cA, pick_step cA) = Continued s'"
    using apply_step_pick_continues [OF a demo_rebase] by blast
  then show ?thesis by simp
qed

theorem index_step_stops_witness:
  "action (snd (index_step cI, index_with_ref cI)) = INDEX
   \<and> refs (state_of (apply_loop demo_repo False (initial_state no_refs (Some cR))
        ([(pick_step cA, pick_step cA)] @ (index_step cI, index_with_ref cI)
           # [(pick_step cB, pick_step cB)])))
       = refs (state_of (apply_loop demo_repo False (initial_state no_refs (Some cR))
           [(pick_step cA, pick_step cA)]))
   \<and> stdout (state_of (apply_loop demo_repo False (initial_state no_refs (Some cR))
        ([(pick_step cA, pick_step cA)] @ (index_step cI, index_with_ref cI)
           # [(pick_step cB, pick_step cB)])))
       = stdout (state_of (apply_loop demo_repo False (initial_state no_refs (Some cR))
           [(pick_step cA, pick_step cA)]))"
proof -
  have a: "action (snd (index_step cI, index_with_ref cI)) = INDEX"
    by (simp add: index_with_ref_def new_CommitStep_def)
  obtain s1 where s1: "apply_loop demo_repo False (initial_state no_refs (Some cR))
           [(pick_step cA, pick_step cA)] = Continued s1"
    using demo_pick_continues by blast
  have p: "state_of (apply_loop demo_repo False (initial_state no_refs (Some cR))
           [(pick_step cA, pick_step cA)]) = s1"
    by (simp only: s1 state_of.simps)
  show ?thesis
    unfolding p
    using index_step_stops [OF a s1, of "[(pick_step cB, pick_step cB)]"] a
    by blast
qed

lemma demo_index_run:
  "refs (state_of (apply_loop demo_repo False (initial_state no_refs (Some cR))
        [(pick_step cA, pick_step cA), (index_step cI, index_with_ref cI),
         (pick_step cB, pick_step cB)])) ''refs/heads/topic'' = None"
  "stdout (state_of (apply_loop demo_repo False (initial_state no_refs (Some cR))
        [(pick_step cA, pick_step cA), (index_step cI, index_with_ref cI),
         (pick_step cB, pick_step cB)])) = [''pick   new-t1  commit one'']"
  by code_simp+

subsection \<open>Plan builder\<close>

lemma split_once_no_sep:
  assumes "dropWhile (\<lambda>c. c \<noteq> sep) s = []"
  shows "split_once sep s = [s]"
  unfolding split_once_def by (simp only: assms list.case)

lemma split_once_sep:
  assumes "dropWhile (\<lambda>c. c \<noteq> sep) s = c # rest"
  shows "split_once sep s = [takeWhile (\<lambda>c. c \<noteq> sep) s, rest]"
  unfolding split_once_def by (simp only: assms list.case)

lemma branch_line_iff:
  "takeWhile (\<lambda>c. c \<noteq> CHR '' '') line = ''branch''
     \<and> dropWhile (\<lambda>c. c \<noteq> CHR '' '') line = c # rest
   \<longleftrightarrow> c = CHR '' '' \<and> line = ''branch '' @ rest"
proof
  assume a: "takeWhile (\<lambda>c. c \<noteq> CHR '' '') line = ''branch''
     \<and> dropWhile (\<lambda>c. c \<noteq> CHR '' '') line = c # rest"
  then have c: "c = CHR '' ''"
    using hd_dropWhile [of "\<lambda>c. c \<noteq> CHR '' ''" line] by auto
  have "line = takeWhile (\<lambda>c. c \<noteq> CHR '' '') line @ dropWhile (\<lambda>c. c \<noteq> CHR '' '') line"
    by simp
  with a c show "c = CHR '' '' \<and> line = ''branch '' @ rest" by simp
next
  assume "c = CHR '' '' \<and> line = ''branch '' @ rest"
  then show "takeWhile (\<lambda>c. c \<noteq> CHR '' '') line = ''branch''
     \<and> dropWhile (\<lambda>c. c \<noteq> CHR '' '') line = c # rest"
    by simp
qed

lemma branch_of_iff: "branch_of line = [v] \<longleftrightarrow> line = ''branch '' @ v"
proof
  assume "branch_of line = [v]"
  then have "take 7 line = ''branch ''" and "drop 7 line = v"
    by (auto simp: branch_of_def split: if_splits)
  then show "line = ''branch '' @ v" using append_take_drop_id [of 7 line] by simp
next
  assume "line = ''branch '' @ v"
  then show "branch_of line = [v]" by (simp add: branch_of_def)
qed

lemma branch_of_cases: "branch_of line = [] \<or> branch_of line = [drop 7 line]"
  by (simp add: branch_of_def)

lemma record_branches_step:
  "record_branches outchecked (line # rest) =
     (if takeWhile (\<lambda>c. c \<noteq> CHR '' '') line = ''branch'' then
        (case dropWhile (\<lambda>c. c \<noteq> CHR '' '') line of
           [] \<Rightarrow> Inl IndexError
         | c # val \<Rightarrow> record_branches (insert val outchecked) rest)
      else record_branches outchecked rest)"
proof (cases "dropWhile (\<lambda>c. c \<noteq> CHR '' '') line")
  case Nil
  have t: "takeWhile (\<lambda>c. c \<noteq> CHR '' '') line = line"
    using Nil by (metis append_Nil2 takeWhile_dropWhile_id)
  have so: "split_once CHR '' '' line = [line]" using Nil by (rule split_once_no_sep)
  have lhs: "record_branches outchecked (line # rest) =
      (if line = ''branch'' then Inl IndexError else record_branches outchecked rest)"
    by (simp only: record_branches.simps so) (simp add: item_def)
  show ?thesis unfolding lhs by (simp only: t Nil list.case)
next
  case (Cons c val)
  have so: "split_once CHR '' '' line = [takeWhile (\<lambda>c. c \<noteq> CHR '' '') line, val]"
    using Cons by (rule split_once_sep)
  have lhs: "record_branches outchecked (line # rest) =
      (if takeWhile (\<lambda>c. c \<noteq> CHR '' '') line = ''branch''
       then record_branches (insert val outchecked) rest
       else record_branches outchecked rest)"
    by (simp only: record_branches.simps so) (simp add: item_def)
  show ?thesis unfolding lhs by (simp only: Cons list.case)
qed

lemma record_branches_result:
  "record_branches outchecked lines = Inr outchecked' \<Longrightarrow>
   outchecked' = outchecked \<union> set (concat (map branch_of lines))"
proof (induction lines arbitrary: outchecked)
  case Nil
  then show ?case by simp
next
  case (Cons line rest)
  note IH = Cons.IH and prems = Cons.prems
  show ?case
  proof (cases "takeWhile (\<lambda>c. c \<noteq> CHR '' '') line = ''branch''")
    case True
    show ?thesis
    proof (cases "dropWhile (\<lambda>c. c \<noteq> CHR '' '') line")
      case Nil
      have "record_branches outchecked (line # rest) = Inl IndexError"
        by (simp only: record_branches_step True Nil list.case) simp
      with prems show ?thesis by simp
    next
      case (Cons c val)
      with True have l: "line = ''branch '' @ val" using branch_line_iff [of line c val] by simp
      then have b: "branch_of line = [val]" by (simp add: branch_of_iff)
      have "record_branches outchecked (line # rest) = record_branches (insert val outchecked) rest"
        by (simp only: record_branches_step True Cons list.case) simp
      with prems have "record_branches (insert val outchecked) rest = Inr outchecked'" by simp
      from IH [OF this] show ?thesis using b by simp
    qed
  next
    case False
    have b: "branch_of line = []"
    proof (rule ccontr)
      assume "branch_of line \<noteq> []"
      then have "branch_of line = [drop 7 line]" using branch_of_cases [of line] by simp
      then have "line = ''branch '' @ drop 7 line" by (simp only: branch_of_iff)
      then have "takeWhile (\<lambda>c. c \<noteq> CHR '' '') line = ''branch''"
        using branch_line_iff [of line "CHR '' ''" "drop 7 line"] by simp
      with False show False by simp
    qed
    have "record_branches outchecked (line # rest) = record_branches outchecked rest"
      by (simp only: record_branches_step False if_False)
    with prems have "record_branches outchecked rest = Inr outchecked'" by simp
    from IH [OF this] show ?thesis using b by simp
  qed
qed

lemma worktree_entries_result:
  "worktree_entries outchecked entries = Inr outchecked' \<Longrightarrow>
   outchecked' = outchecked \<union> \<Union> (set (map branches_of entries))"
proof (induction entries arbitrary: outchecked)
  case Nil
  then show ?case by simp
next
  case (Cons entry rest)
  from Cons.prems obtain mid where
    m: "record_branches outchecked (split entry [LF]) = Inr mid"
    and r: "worktree_entries mid rest = Inr outchecked'"
    by (auto split: sum.splits)
  have "mid = outchecked \<union> branches_of entry"
    using record_branches_result [OF m] by (simp add: branches_of_def)
  with Cons.IH [OF r] show ?case by auto
qed

lemma index_refs_result:
  "index_refs repo commit_refs lines = Inr commit_refs' \<Longrightarrow>
   commit_refs' i = commit_refs i @ concat (map (pointing repo i) lines)"
proof (induction lines arbitrary: commit_refs)
  case Nil
  then show ?case by simp
next
  case (Cons line rest)
  from Cons.prems obtain sha refname j where
    sp: "split_once CHR '' '' line = [sha, refname]"
    and fh: "fromhex repo sha = Inr j"
    and r: "index_refs repo (commit_refs(j := commit_refs j @ [refname])) rest = Inr commit_refs'"
    by (auto split: list.splits sum.splits)
  have p: "pointing repo i line = (if j = i then [refname] else [])"
    using sp fh by (auto simp: pointing_def)
  from Cons.IH [OF r] show ?case using p by simp
qed

lemma attach_refs_map:
  "attach_refs outchecked step names =
     step\<lparr>extrasteps := extrasteps step
        @ map (\<lambda>ref. \<lparr>cl_action = (if startswith ref ''refs/heads/'' \<and> ref \<notin> outchecked
                                     then UPDATE_REF else COMMENT),
                       operand = ref\<rparr>) names\<rparr>"
  by (induction names arbitrary: step) simp_all

text \<open>
  C5 (as amended).  The steps that \<open>build_todos\<close> returns are one pick per commit, in
  order, and an index step last when an index commit is given.  Each carries exactly one
  extra step per ref that \<open>git show-ref\<close> lists for its commit, in the order listed and
  with the ref name as operand: an update-ref when the ref is a branch ref and the branch
  is not checked out in any worktree that \<open>git worktree list\<close> lists, the main one
  included, and a comment otherwise.  It carries no other extra step.
\<close>

theorem build_todos_ref_annotation:
  assumes "build_todos repo commits index = Inr steps"
    and "git repo [''show-ref'', ''--heads'', ''--tags''] = Inr shown"
    and "git repo [''worktree'', ''list'', ''--porcelain''] = Inr listed"
  shows "map commit steps = commits @ (case index of None \<Rightarrow> [] | Some i \<Rightarrow> [i])
     \<and> map action steps
         = map (\<lambda>c. PICK) commits @ (case index of None \<Rightarrow> [] | Some i \<Rightarrow> [INDEX])
     \<and> (\<forall>step\<in>set steps.
           extrasteps step =
             map (\<lambda>ref. \<lparr>cl_action = (if prefix ''refs/heads/'' ref
                                            \<and> ref \<notin> worktree_branches listed
                                          then UPDATE_REF else COMMENT),
                           operand = ref\<rparr>)
               (refs_pointing_at repo shown (oid (commit step))))"
proof -
  let ?base = "map (new_CommitStep PICK) commits
                 @ (case index of None \<Rightarrow> [] | Some i \<Rightarrow> [new_CommitStep INDEX i])"
  from assms obtain commit_refs outchecked where
    cr: "index_refs repo (\<lambda>i. []) (splitlines shown) = Inr commit_refs"
    and oc: "worktree_entries {} (split listed [LF, LF]) = Inr outchecked"
    and st: "steps = map (\<lambda>step. attach_refs outchecked step (commit_refs (oid (commit step)))) ?base"
    by (auto simp: build_todos_def Let_def split: sum.splits)
  have cr': "\<And>i. commit_refs i = refs_pointing_at repo shown i"
    using index_refs_result [OF cr] by (simp add: refs_pointing_at_def)
  have oc': "outchecked = worktree_branches listed"
    using worktree_entries_result [OF oc] by (simp add: worktree_branches_def)
  have 1: "map commit steps = commits @ (case index of None \<Rightarrow> [] | Some i \<Rightarrow> [i])"
    by (simp add: st attach_refs_map new_CommitStep_def comp_def split: option.splits)
  have 2: "map action steps
         = map (\<lambda>c. PICK) commits @ (case index of None \<Rightarrow> [] | Some i \<Rightarrow> [INDEX])"
    by (simp add: st attach_refs_map new_CommitStep_def comp_def split: option.splits)
  have 3: "\<forall>step\<in>set steps.
           extrasteps step =
             map (\<lambda>ref. \<lparr>cl_action = (if prefix ''refs/heads/'' ref
                                            \<and> ref \<notin> worktree_branches listed
                                          then UPDATE_REF else COMMENT),
                           operand = ref\<rparr>)
               (refs_pointing_at repo shown (oid (commit step)))"
    by (auto simp: st attach_refs_map new_CommitStep_def cr' oc' startswith_prefix
        split: option.splits)
  show ?thesis using 1 2 3 by blast
qed

lemma demo_build: "build_todos worktree_repo [cA, cB] None = Inr demo_steps"
  by code_simp

lemma demo_git_outputs:
  "git worktree_repo [''show-ref'', ''--heads'', ''--tags''] = Inr demo_shown"
  "git worktree_repo [''worktree'', ''list'', ''--porcelain''] = Inr demo_listed"
  by (simp_all add: worktree_repo_def demo_git_def)

lemma demo_master_elsewhere:
  "''refs/heads/master'' \<notin> other_worktree_branches demo_listed"
  by code_simp

theorem build_todos_ref_annotation_witness:
  "map commit demo_steps = [cA, cB]
   \<and> list_all (\<lambda>step. extrasteps step =
          map (\<lambda>ref. \<lparr>cl_action = (if prefix ''refs/heads/'' ref
                                        \<and> ref \<notin> worktree_branches demo_listed
                                      then UPDATE_REF else COMMENT),
                        operand = ref\<rparr>)
            (refs_pointing_at worktree_repo demo_shown (oid (commit step)))) demo_steps
   \<and> extrasteps (demo_steps ! 1) = [\<lparr>cl_action = COMMENT, operand = ''refs/heads/master''\<rparr>]"
  using build_todos_ref_annotation [OF demo_build demo_git_outputs]
  by (simp add: list_all_iff) (simp add: demo_steps_def)

text \<open>
  The branch checked out in the main worktree gets a comment, although it is a branch ref
  that no other worktree has checked out.
\<close>

theorem build_todos_comments_main_worktree_branch:
  "build_todos worktree_repo [cA, cB] None = Inr demo_steps
   \<and> extrasteps (demo_steps ! 1) = [\<lparr>cl_action = COMMENT, operand = ''refs/heads/master''\<rparr>]
   \<and> startswith ''refs/heads/master'' ''refs/heads/''
   \<and> ''refs/heads/master'' \<notin> other_worktree_branches demo_listed"
  using demo_build demo_master_elsewhere by (simp add: demo_steps_def startswith_def)

subsection \<open>Presentation bridge\<close>

lemma collect_Inr_iff:
  "collect f xs = Inr ys \<longleftrightarrow> list_all2 (\<lambda>x y. f x = Inr y) xs ys"
proof (induction xs arbitrary: ys)
  case Nil
  then show ?case by auto
next
  case (Cons x xs)
  show ?case
  proof (cases "f x")
    case (Inl e)
    then show ?thesis by (auto simp: list_all2_Cons1)
  next
    case (Inr y)
    then show ?thesis using Cons.IH
      by (cases "collect f xs") (auto simp: list_all2_Cons1)
  qed
qed

lemma collect_rev: "collect f xs = Inr ys \<Longrightarrow> collect f (rev xs) = Inr (rev ys)"
  by (simp add: collect_Inr_iff)

lemma collect_rev_Inl:
  assumes "collect f xs = Inl e"
  shows "\<exists>e'. collect f (rev xs) = Inl e'"
proof (cases "collect f (rev xs)")
  case (Inl e')
  then show ?thesis by blast
next
  case (Inr zs)
  then have "collect f (rev (rev xs)) = Inr (rev zs)" by (rule collect_rev)
  with assms show ?thesis by simp
qed

lemma collect_map: "collect f (map g xs) = collect (\<lambda>x. f (g x)) xs"
  by (induction xs) (simp_all split: sum.splits)

lemma take3_line:
  "take 3 (y @ LF # rest) = ''++ '' \<longleftrightarrow> take 3 (y @ [LF]) = ''++ ''"
proof (cases y)
  case Nil
  then show ?thesis by (simp add: LF_def)
next
  case (Cons a y1)
  show ?thesis
  proof (cases y1)
    case Nil
    with Cons show ?thesis by (simp add: LF_def numeral_3_eq_3)
  next
    case (Cons b y2)
    show ?thesis
    proof (cases y2)
      case Nil
      with \<open>y = a # y1\<close> \<open>y1 = b # y2\<close> show ?thesis by (simp add: LF_def numeral_3_eq_3)
    next
      case (Cons c y3)
      with \<open>y = a # y1\<close> \<open>y1 = b # y2\<close> show ?thesis by (simp add: numeral_3_eq_3)
    qed
  qed
qed

lemma split_marker_entry:
  "no_marker bol (x @ [LF]) \<Longrightarrow>
   split_marker bol piece (x @ LF # rest) = split_marker True (LF # rev x @ piece) rest"
proof (induction x arbitrary: bol piece)
  case Nil
  have "LF \<noteq> CHR ''+''" by (simp add: LF_def)
  then show ?case by simp
next
  case (Cons c x)
  from Cons.prems have a: "\<not> (bol \<and> take 3 ((c # x) @ [LF]) = ''++ '')"
    and b: "no_marker (c = LF) (x @ [LF])"
    by simp_all
  from a have a': "(bol \<and> take 3 (c # x @ LF # rest) = ''++ '') = False"
    using take3_line [of "c # x" rest] by (simp only: append_Cons)
  have "split_marker bol piece ((c # x) @ LF # rest)
      = split_marker (c = LF) (c # piece) (x @ LF # rest)"
    by (simp only: append_Cons split_marker.simps a' if_False)
  also have "\<dots> = split_marker True (LF # rev x @ c # piece) rest"
    using Cons.IH [OF b] by simp
  finally show ?case by simp
qed

lemma split_marker_text:
  "list_all marker_free entries \<Longrightarrow>
   split_marker True piece (concat (map (\<lambda>x. ''++ '' @ x @ [LF]) entries))
     = rev piece # map (\<lambda>x. x @ [LF]) entries"
proof (induction entries arbitrary: piece)
  case Nil
  then show ?case by simp
next
  case (Cons x entries)
  let ?rest = "concat (map (\<lambda>x. ''++ '' @ x @ [LF]) entries)"
  from Cons.prems have "marker_free x" and rest: "list_all marker_free entries"
    by simp_all
  then have mf: "no_marker False (x @ [LF])" by (simp add: marker_free_def)
  have "split_marker True piece (concat (map (\<lambda>x. ''++ '' @ x @ [LF]) (x # entries)))
      = split_marker True piece (''++ '' @ x @ LF # ?rest)" by simp
  also have "\<dots> = rev piece # split_marker False [] (x @ LF # ?rest)"
    by (simp add: numeral_3_eq_3)
  also have "\<dots> = rev piece # split_marker True (LF # rev x) ?rest"
    using split_marker_entry [OF mf, of "[]" ?rest] by simp
  also have "\<dots> = rev piece # (x @ [LF]) # map (\<lambda>x. x @ [LF]) entries"
    using Cons.IH [OF rest, of "LF # rev x"] by simp
  finally show ?case by simp
qed

lemma splitlines_text:
  "list_all single_line entries \<Longrightarrow>
   splitlines (concat (map (\<lambda>x. x @ [LF]) entries)) = entries"
proof (induction entries)
  case Nil
  show ?case by (subst splitlines.simps) simp
next
  case (Cons x entries)
  let ?rest = "concat (map (\<lambda>x. x @ [LF]) entries)"
  from Cons.prems have "single_line x" and rest: "list_all single_line entries"
    by simp_all
  then have sl: "\<forall>c\<in>set x. \<not> line_break c" by (simp add: single_line_def list_ex_iff)
  have lb: "line_break LF" by (simp add: line_break_def)
  have dw: "dropWhile (\<lambda>c. \<not> line_break c) (x @ LF # ?rest) = LF # ?rest"
    using sl lb by (simp add: dropWhile_append3)
  have tw: "takeWhile (\<lambda>c. \<not> line_break c) (x @ LF # ?rest) = x"
    using sl lb by (simp add: takeWhile_tail)
  have ne: "LF \<noteq> CR" by (simp add: LF_def CR_def)
  have "splitlines (x @ LF # ?rest) = x # splitlines ?rest"
    using dw tw ne by (subst splitlines.simps) simp
  then show ?case using Cons.IH [OF rest] by simp
qed

lemma edit_todos_msgedit_blocks:
  assumes "\<forall>text. run_editor repo text = Inr text"
    and "list_all marker_free (serialize_msgedit repo todos)"
  shows "edit_todos_msgedit repo todos False
           = collect (parse_block repo) (map (\<lambda>x. x @ [LF]) (serialize_msgedit repo todos))"
    and "edit_todos_msgedit repo todos True
           = collect (parse_block repo) (rev (map (\<lambda>x. x @ [LF]) (serialize_msgedit repo todos)))"
proof -
  let ?E = "serialize_msgedit repo todos"
  have r: "list_all marker_free (rev ?E)" using assms(2) by (simp add: list_all_iff)
  show "edit_todos_msgedit repo todos False = collect (parse_block repo) (map (\<lambda>x. x @ [LF]) ?E)"
    using assms(1) split_marker_text [OF assms(2), of "[]"]
    by (simp add: edit_todos_msgedit_def Let_def)
  show "edit_todos_msgedit repo todos True
           = collect (parse_block repo) (rev (map (\<lambda>x. x @ [LF]) ?E))"
    using assms(1) split_marker_text [OF r, of "[]"]
    by (simp add: edit_todos_msgedit_def Let_def rev_map)
qed

lemma edit_todos_linewise_lines:
  assumes "\<forall>text. run_sequence_editor repo text = Inr text"
    and "list_all single_line (serialize_linewise repo todos)"
  shows "edit_todos_linewise repo todos False
           = collect (\<lambda>line. parse_step repo (strip line))
               (filter (\<lambda>line. \<not> isspace line) (serialize_linewise repo todos))"
    and "edit_todos_linewise repo todos True
           = collect (\<lambda>line. parse_step repo (strip line))
               (rev (filter (\<lambda>line. \<not> isspace line) (serialize_linewise repo todos)))"
proof -
  let ?E = "serialize_linewise repo todos"
  have r: "list_all single_line (rev ?E)" using assms(2) by (simp add: list_all_iff)
  show "edit_todos_linewise repo todos False
           = collect (\<lambda>line. parse_step repo (strip line)) (filter (\<lambda>line. \<not> isspace line) ?E)"
    using assms(1) splitlines_text [OF assms(2)]
    by (simp add: edit_todos_linewise_def Let_def)
  show "edit_todos_linewise repo todos True
           = collect (\<lambda>line. parse_step repo (strip line))
               (rev (filter (\<lambda>line. \<not> isspace line) ?E))"
    using assms(1) splitlines_text [OF r]
    by (simp add: edit_todos_linewise_def Let_def rev_filter)
qed

lemma presented_both:
  assumes "\<forall>text. run_editor repo text = Inr text"
    and "\<forall>text. run_sequence_editor repo text = Inr text"
    and "presentable repo todos msgedit"
  shows "\<exists>(f :: bytes \<Rightarrow> error + polystep) xs.
     (if msgedit then edit_todos_msgedit repo todos False else edit_todos_linewise repo todos False)
        = collect f xs
     \<and> (if msgedit then edit_todos_msgedit repo todos True else edit_todos_linewise repo todos True)
        = collect f (rev xs)"
proof (cases msgedit)
  case True
  with assms(3) have "list_all marker_free (serialize_msgedit repo todos)"
    by (simp add: presentable_def)
  from edit_todos_msgedit_blocks [OF assms(1) this] True
  have "(if msgedit then edit_todos_msgedit repo todos False
         else edit_todos_linewise repo todos False)
          = collect (parse_block repo) (map (\<lambda>x. x @ [LF]) (serialize_msgedit repo todos))
      \<and> (if msgedit then edit_todos_msgedit repo todos True
           else edit_todos_linewise repo todos True)
          = collect (parse_block repo)
              (rev (map (\<lambda>x. x @ [LF]) (serialize_msgedit repo todos)))"
    by simp
  then show ?thesis by blast
next
  case False
  with assms(3) have "list_all single_line (serialize_linewise repo todos)"
    by (simp add: presentable_def)
  from edit_todos_linewise_lines [OF assms(2) this] False
  have "(if msgedit then edit_todos_msgedit repo todos False
         else edit_todos_linewise repo todos False)
          = collect (\<lambda>line. parse_step repo (strip line))
              (filter (\<lambda>line. \<not> isspace line) (serialize_linewise repo todos))
      \<and> (if msgedit then edit_todos_msgedit repo todos True
           else edit_todos_linewise repo todos True)
          = collect (\<lambda>line. parse_step repo (strip line))
              (rev (filter (\<lambda>line. \<not> isspace line) (serialize_linewise repo todos)))"
    by simp
  then show ?thesis by blast
qed

text \<open>
  C8 (as amended).  Let the editors return the text they are given, and let the plan be
  one whose serialized entries the text splits back into: in message-editing mode no
  line of an entry after its first begins with the marker \<open>++ \<close>, in line-wise mode no
  entry has a line break in it.  Then \<open>edit_todos\<close> returns a list of steps with the
  presentation flag set exactly when it returns the same list, each step with the same
  extra steps, with the flag unset.
\<close>

theorem head_on_top_view_transform:
  assumes "\<forall>text. run_editor repo text = Inr text"
    and "\<forall>text. run_sequence_editor repo text = Inr text"
    and "presentable repo todos msgedit"
  shows "(edit_todos_presented repo True todos msgedit = Inr result
           \<longleftrightarrow> edit_todos_presented repo False todos msgedit = Inr result)
     \<and> edit_todos repo todos msgedit
         = edit_todos_presented repo
             (bool_config repo ''sequence.presentation-order-head-on-top'' False) todos msgedit"
proof -
  obtain f :: "bytes \<Rightarrow> error + polystep" and xs where
    pf: "(if msgedit then edit_todos_msgedit repo todos False
          else edit_todos_linewise repo todos False) = collect f xs"
    and pt: "(if msgedit then edit_todos_msgedit repo todos True
          else edit_todos_linewise repo todos True) = collect f (rev xs)"
    using presented_both [OF assms] by blast
  have "edit_todos_presented repo True todos msgedit = Inr result
           \<longleftrightarrow> edit_todos_presented repo False todos msgedit = Inr result"
  proof (cases "collect f xs")
    case (Inl e)
    then obtain e' where "collect f (rev xs) = Inl e'" using collect_rev_Inl by blast
    with Inl show ?thesis
      unfolding edit_todos_presented_def pf pt by simp
  next
    case (Inr ps)
    then have "collect f (rev xs) = Inr (rev ps)" by (rule collect_rev)
    with Inr show ?thesis
      unfolding edit_todos_presented_def pf pt by simp
  qed
  then show ?thesis by (simp add: edit_todos_def)
qed

lemma demo_presentable:
  "presentable demo_repo demo_steps True" "presentable demo_repo demo_steps False"
  by code_simp+

lemma demo_unflagged:
  "edit_todos_presented demo_repo False demo_steps True = Inr demo_edited"
  "edit_todos_presented demo_repo False demo_steps False = Inr demo_steps"
  by code_simp+

lemma demo_editors:
  "\<forall>text. run_editor demo_repo text = Inr text"
  "\<forall>text. run_sequence_editor demo_repo text = Inr text"
  by (simp_all add: demo_repo_def)

theorem head_on_top_view_transform_witness:
  "presentable demo_repo demo_steps True
   \<and> edit_todos_presented demo_repo True demo_steps True = Inr demo_edited
   \<and> edit_todos_presented demo_repo False demo_steps True = Inr demo_edited
   \<and> presentable demo_repo demo_steps False
   \<and> edit_todos_presented demo_repo True demo_steps False = Inr demo_steps
   \<and> edit_todos_presented demo_repo False demo_steps False = Inr demo_steps"
  using head_on_top_view_transform [OF demo_editors demo_presentable(1), of demo_edited]
    head_on_top_view_transform [OF demo_editors demo_presentable(2), of demo_steps]
    demo_presentable demo_unflagged
  by simp

text \<open>
  Message-editing mode on a plan whose first commit message has the line \<open>++ # note\<close>,
  the editor returning the text unchanged: with the flag unset the plan comes back with a
  comment attached to the first step; with the flag set the comment comes first and
  \<open>edit_todos\<close> raises.
\<close>

theorem head_on_top_changes_result:
  "edit_todos (marker_repo False) [pick_step cM, pick_step cB] True
     = Inr [(pick_step cM)\<lparr>message := ''one'' @ [LF],
              extrasteps := [\<lparr>cl_action = COMMENT, operand = ''note''\<rparr>]\<rparr>,
            (pick_step cB)\<lparr>message := ''commit two'' @ [LF]\<rparr>]
   \<and> edit_todos (marker_repo True) [pick_step cM, pick_step cB] True = Inl no_base"
  by code_simp

end
